theory Spec2Isabelle
  imports Main
begin

section \<open>The timer cards of \<open>app.js\<close>\<close>

text \<open>
  The program is a browser page with one to three timer cards. Each card is an object of
  \<open>class Timer\<close>; all cards use the one module-level object \<open>alarm\<close> of
  \<open>class AlarmSound\<close>; a running card owns one \<open>setInterval\<close> callback that
  recomputes its seconds from \<open>Date.now()\<close>.

  The embedding follows \<open>src/app.js\<close>. The two further variants of the page in
  \<open>src/unnamed/part_000\<close> have the same \<open>start\<close>, \<open>stop\<close>, \<open>reset\<close>,
  \<open>_triggerAlarm\<close>, \<open>stopAlarm\<close>, \<open>destroy\<close> and interval callback; the first of
  them replaces the arrow buttons by drum pickers, whose change callback ends in
  \<open>_syncFromPicker\<close>, modelled below as well.

  Numbers: every number the timer code handles is an integer (\<open>Date.now()\<close> is a whole
  number of milliseconds), so JavaScript's doubles are modelled by \<open>int\<close>; this is exact
  below \<open>2^53\<close>. \<open>Math.floor(x / d)\<close> on integers is \<open>x div d\<close>, which rounds towards
  minus infinity in HOL as well. JavaScript's \<open>%\<close> takes the sign of the dividend and is
  written out as \<open>js_rem\<close>.

  What is left out: writes to the page that the script never reads back (the text of the
  display and of the picker values, the \<open>disabled\<close> flags of the buttons, the
  \<open>hidden\<close> and \<open>active\<close> classes), and the audio graph behind a beep. The class
  \<open>alarming\<close> of a card is read back by the card's click handler and is a field of the
  model.
\<close>

subsection \<open>Arithmetic of the host language\<close>

definition js_rem :: "int \<Rightarrow> int \<Rightarrow> int" where
  "js_rem a b = sgn a * (\<bar>a\<bar> mod \<bar>b\<bar>)"

subsection \<open>\<open>class AlarmSound\<close>\<close>

text \<open>
  \<open>ctx\<close> records whether the audio context has been created (\<open>this.ctx\<close> is not
  \<open>null\<close>); resuming a suspended context is an effect inside the browser's audio
  system and has no field here. \<open>oscillators\<close> is the length of the array of live
  oscillator nodes. The callbacks of the audio thread (\<open>onended\<close> and the 200 ms
  re-arm of \<open>_beepLoop\<close>) only change that array and are not events of the model.
\<close>

record alarm_sound =
  ctx :: bool
  playing :: bool
  oscillators :: nat

definition AlarmSound_new :: alarm_sound where
  "AlarmSound_new = \<lparr>ctx = False, playing = False, oscillators = 0\<rparr>"

definition alarm_init :: "alarm_sound \<Rightarrow> alarm_sound" where
  "alarm_init al = (if \<not> ctx al then al\<lparr>ctx := True\<rparr> else al)"

definition beepLoop :: "alarm_sound \<Rightarrow> alarm_sound" where
  "beepLoop al = (if \<not> playing al then al else al\<lparr>oscillators := Suc (oscillators al)\<rparr>)"

definition alarm_play :: "alarm_sound \<Rightarrow> alarm_sound" where
  "alarm_play al =
     (let al1 = alarm_init al
      in if playing al1 then al1 else beepLoop (al1\<lparr>playing := True\<rparr>))"

definition alarm_stop :: "alarm_sound \<Rightarrow> alarm_sound" where
  "alarm_stop al = al\<lparr>playing := False, oscillators := 0\<rparr>"

subsection \<open>\<open>class Timer\<close>\<close>

datatype mode = Down | Up

datatype picker_unit = UnitH | UnitM | UnitS

record timer =
  index :: nat
  mode :: mode
  running :: bool
  intervalId :: "nat option"
  totalSeconds :: int
  targetSeconds :: int
  recording :: bool
  setH :: int
  setM :: int
  setS :: int
  alarming :: bool

definition Timer_new :: "nat \<Rightarrow> timer" where
  "Timer_new i =
     \<lparr>index = i, mode = Down, running = False, intervalId = None, totalSeconds = 0,
      targetSeconds = 0, recording = False, setH = 0, setM = 0, setS = 0, alarming = False\<rparr>"

definition unit_max :: "picker_unit \<Rightarrow> int" where
  "unit_max u = (if u = UnitH then 23 else 59)"

definition unit_val :: "picker_unit \<Rightarrow> timer \<Rightarrow> int" where
  "unit_val u t = (if u = UnitH then setH t else if u = UnitM then setM t else setS t)"

definition set_unit :: "picker_unit \<Rightarrow> int \<Rightarrow> timer \<Rightarrow> timer" where
  "set_unit u v t =
     (if u = UnitH then t\<lparr>setH := v\<rparr> else if u = UnitM then t\<lparr>setM := v\<rparr> else t\<lparr>setS := v\<rparr>)"

text \<open>\<open>_syncFromPicker\<close> of the drum-picker variant: the two assignments that also end
  \<open>_adjustPicker\<close>.\<close>

definition syncFromPicker :: "timer \<Rightarrow> timer" where
  "syncFromPicker t =
     (let t1 = t\<lparr>targetSeconds := setH t * 3600 + setM t * 60 + setS t\<rparr>
      in t1\<lparr>totalSeconds := targetSeconds t1\<rparr>)"

definition adjustPicker :: "picker_unit \<Rightarrow> int \<Rightarrow> timer \<Rightarrow> timer" where
  "adjustPicker u dir t =
     (let mx = unit_max u;
          t1 = set_unit u (js_rem (unit_val u t + dir + mx + 1) (mx + 1)) t;
          t2 = t1\<lparr>targetSeconds := setH t1 * 3600 + setM t1 * 60 + setS t1\<rparr>
      in t2\<lparr>totalSeconds := targetSeconds t2\<rparr>)"

subsection \<open>The page: objects, the shared alarm, the table of intervals\<close>

text \<open>
  Timer objects live in \<open>heap\<close>; an object's address is its position, and
  \<open>new Timer\<close> appends. \<open>intervals\<close> is the browser's table of registered
  \<open>setInterval\<close> callbacks: an identifier and the closure, which holds the object
  (\<open>this\<close>), \<open>startTime\<close> and \<open>startSeconds\<close>. \<open>playCalls\<close> is not a variable
  of the program: it counts the calls of \<open>alarm.play()\<close>, so that "invoked once" can
  be stated.
\<close>

type_synonym closure = "nat \<times> int \<times> int"

record world =
  alarm :: alarm_sound
  heap :: "timer list"
  intervals :: "(nat \<times> closure) list"
  nextId :: nat
  playCalls :: nat

definition init_world :: world where
  "init_world = \<lparr>alarm = AlarmSound_new, heap = [], intervals = [], nextId = 0, playCalls = 0\<rparr>"

definition upd :: "nat \<Rightarrow> (timer \<Rightarrow> timer) \<Rightarrow> world \<Rightarrow> world" where
  "upd a f w = w\<lparr>heap := (heap w)[a := f (heap w ! a)]\<rparr>"

definition setInterval :: "closure \<Rightarrow> world \<Rightarrow> nat \<times> world" where
  "setInterval c w =
     (nextId w, w\<lparr>intervals := (nextId w, c) # intervals w, nextId := Suc (nextId w)\<rparr>)"

definition clearInterval :: "nat option \<Rightarrow> world \<Rightarrow> world" where
  "clearInterval ido w =
     (case ido of None \<Rightarrow> w
      | Some k \<Rightarrow> w\<lparr>intervals := filter (\<lambda>e. fst e \<noteq> k) (intervals w)\<rparr>)"

definition new_Timer :: "nat \<Rightarrow> world \<Rightarrow> world" where
  "new_Timer i w = w\<lparr>heap := heap w @ [Timer_new i]\<rparr>"

subsection \<open>Methods of a timer at address \<open>a\<close>\<close>

definition stop :: "nat \<Rightarrow> world \<Rightarrow> world" where
  "stop a w =
     (if \<not> running (heap w ! a) then w
      else let w1 = upd a (\<lambda>t. t\<lparr>running := False\<rparr>) w;
               w2 = clearInterval (intervalId (heap w1 ! a)) w1
           in upd a (\<lambda>t. t\<lparr>intervalId := None\<rparr>) w2)"

definition stopAlarm :: "nat \<Rightarrow> world \<Rightarrow> world" where
  "stopAlarm a w =
     (let w1 = upd a (\<lambda>t. t\<lparr>alarming := False\<rparr>) w
      in w1\<lparr>alarm := alarm_stop (alarm w1)\<rparr>)"

definition reset :: "nat \<Rightarrow> world \<Rightarrow> world" where
  "reset a w =
     (let w1 = stopAlarm a w;
          w2 = stop a w1
      in if mode (heap w2 ! a) = Down
         then upd a (\<lambda>t. t\<lparr>totalSeconds := targetSeconds t\<rparr>) w2
         else upd a (\<lambda>t. t\<lparr>totalSeconds := 0\<rparr>) w2)"

definition triggerAlarm :: "nat \<Rightarrow> world \<Rightarrow> world" where
  "triggerAlarm a w =
     (let w1 = stop a w;
          w2 = upd a (\<lambda>t. t\<lparr>totalSeconds := 0\<rparr>) w1;
          w3 = upd a (\<lambda>t. t\<lparr>alarming := True\<rparr>) w2
      in w3\<lparr>alarm := alarm_play (alarm w3), playCalls := Suc (playCalls w3)\<rparr>)"

definition destroy :: "nat \<Rightarrow> world \<Rightarrow> world" where
  "destroy a w = stop a (stopAlarm a w)"

text \<open>\<open>start\<close> reads the clock once (\<open>now\<close>) and registers the callback.\<close>

definition start :: "nat \<Rightarrow> int \<Rightarrow> world \<Rightarrow> world" where
  "start a now w =
     (let w0 = w\<lparr>alarm := alarm_init (alarm w)\<rparr>
      in if running (heap w0 ! a) then w0
         else if mode (heap w0 ! a) = Down \<and> totalSeconds (heap w0 ! a) \<le> 0 then w0
         else let w1 = upd a (\<lambda>t. t\<lparr>running := True\<rparr>) w0;
                  startTime = now;
                  startSeconds = totalSeconds (heap w1 ! a);
                  (k, w2) = setInterval (a, startTime, startSeconds) w1
              in upd a (\<lambda>t. t\<lparr>intervalId := Some k\<rparr>) w2)"

text \<open>The body of the arrow function passed to \<open>setInterval\<close>, with the clock reading
  of this call.\<close>

definition interval_callback :: "nat \<Rightarrow> int \<Rightarrow> int \<Rightarrow> int \<Rightarrow> world \<Rightarrow> world" where
  "interval_callback a startTime startSeconds now w =
     (let elapsed = (now - startTime) div 1000
      in if mode (heap w ! a) = Up
         then upd a (\<lambda>t. t\<lparr>totalSeconds := startSeconds + elapsed\<rparr>) w
         else let w1 = upd a (\<lambda>t. t\<lparr>totalSeconds := max 0 (startSeconds - elapsed)\<rparr>) w
              in if totalSeconds (heap w1 ! a) \<le> 0 then triggerAlarm a w1 else w1)"

text \<open>The browser fires interval \<open>k\<close>: nothing happens unless \<open>k\<close> is registered.\<close>

definition tick :: "nat \<Rightarrow> int \<Rightarrow> world \<Rightarrow> world" where
  "tick k now w =
     (case map_of (intervals w) k of
        None \<Rightarrow> w
      | Some (a, startTime, startSeconds) \<Rightarrow> interval_callback a startTime startSeconds now w)"

subsection \<open>Event handlers bound in \<open>_bindEvents\<close>\<close>

definition toggle_click :: "nat \<Rightarrow> mode \<Rightarrow> world \<Rightarrow> world" where
  "toggle_click a m w =
     (if running (heap w ! a) then w else reset a (upd a (\<lambda>t. t\<lparr>mode := m\<rparr>) w))"

definition picker_click :: "nat \<Rightarrow> picker_unit \<Rightarrow> bool \<Rightarrow> world \<Rightarrow> world" where
  "picker_click a u up w =
     (if running (heap w ! a) then w
      else upd a (adjustPicker u (if up then 1 else - 1)) w)"

definition rec_click :: "nat \<Rightarrow> world \<Rightarrow> world" where
  "rec_click a w = upd a (\<lambda>t. t\<lparr>recording := \<not> recording t\<rparr>) w"

text \<open>The card's own click handler, for a click whose target lies in neither a
  \<open>.ctrl-btn\<close> nor the \<open>.rec-btn\<close> (for those the handler does nothing).\<close>

definition card_click :: "nat \<Rightarrow> world \<Rightarrow> world" where
  "card_click a w = (if alarming (heap w ! a) then stopAlarm a w else w)"

text \<open>The change callback of a drum picker (first variant of \<open>part_000\<close>).\<close>

definition drum_change :: "nat \<Rightarrow> picker_unit \<Rightarrow> int \<Rightarrow> world \<Rightarrow> world" where
  "drum_change a u v w = upd a (\<lambda>t. syncFromPicker (set_unit u v t)) w"

subsection \<open>Runs of the page\<close>

text \<open>
  What can happen to the page, one event at a time. A method or handler runs only on an
  object that exists. \<open>StartClick\<close> and \<open>Tick\<close> carry the value \<open>Date.now()\<close>
  returns in that call.
\<close>

datatype event =
    NewTimer nat
  | ToggleClick nat mode
  | PickerClick nat picker_unit bool
  | RecClick nat
  | StartClick nat int
  | StopClick nat
  | ResetClick nat
  | CardClick nat
  | Destroy nat
  | Tick nat int

fun on_timer :: "nat \<Rightarrow> (world \<Rightarrow> world) \<Rightarrow> world \<Rightarrow> world" where
  "on_timer a f w = (if a < length (heap w) then f w else w)"

fun step :: "event \<Rightarrow> world \<Rightarrow> world" where
  "step (NewTimer i) w = new_Timer i w"
| "step (ToggleClick a m) w = on_timer a (toggle_click a m) w"
| "step (PickerClick a u up) w = on_timer a (picker_click a u up) w"
| "step (RecClick a) w = on_timer a (rec_click a) w"
| "step (StartClick a now) w = on_timer a (start a now) w"
| "step (StopClick a) w = on_timer a (stop a) w"
| "step (ResetClick a) w = on_timer a (reset a) w"
| "step (CardClick a) w = on_timer a (card_click a) w"
| "step (Destroy a) w = on_timer a (destroy a) w"
| "step (Tick k now) w = tick k now w"

fun run :: "world \<Rightarrow> event list \<Rightarrow> world" where
  "run w [] = w"
| "run w (e # es) = run (step e w) es"

fun ticks :: "nat \<Rightarrow> int list \<Rightarrow> world \<Rightarrow> world" where
  "ticks k [] w = w"
| "ticks k (n # ns) w = ticks k ns (tick k n w)"

subsection \<open>Invariants of the page\<close>

text \<open>
  Every registered interval belongs to an object that exists, is running and holds the
  interval's identifier in \<open>intervalId\<close>; and a running countdown has seconds left (it
  stops itself on the tick that finds none). Both hold in every state the page can reach
  (\<open>wf_reachable\<close> below).
\<close>

definition owner_ok :: "timer list \<Rightarrow> nat \<times> closure \<Rightarrow> bool" where
  "owner_ok h e =
     (fst (snd e) < length h \<and> running (h ! fst (snd e))
      \<and> intervalId (h ! fst (snd e)) = Some (fst e))"

definition countdown_ok :: "timer \<Rightarrow> bool" where
  "countdown_ok t = (running t \<and> mode t = Down \<longrightarrow> 0 < totalSeconds t)"

definition wf_world :: "world \<Rightarrow> bool" where
  "wf_world w = (list_all (owner_ok (heap w)) (intervals w) \<and> list_all countdown_ok (heap w))"

text \<open>The registered callbacks whose closure holds the object at \<open>a\<close>.\<close>

definition owned :: "nat \<Rightarrow> world \<Rightarrow> (nat \<times> closure) list" where
  "owned a w = filter (\<lambda>e. fst (snd e) = a) (intervals w)"

text \<open>
  A run in which no callback of a count-up card reads a clock that lies before the
  reading its \<open>start\<close> took.
\<close>

fun tick_after_start :: "world \<Rightarrow> event \<Rightarrow> bool" where
  "tick_after_start w (Tick k now) =
     (case map_of (intervals w) k of
        None \<Rightarrow> True
      | Some (a, startTime, startSeconds) \<Rightarrow> mode (heap w ! a) = Up \<longrightarrow> startTime \<le> now)"
| "tick_after_start w _ = True"

fun clock_ok :: "world \<Rightarrow> event list \<Rightarrow> bool" where
  "clock_ok w [] = True"
| "clock_ok w (e # es) = (tick_after_start w e \<and> clock_ok (step e w) es)"

definition fields_nonneg :: "timer \<Rightarrow> bool" where
  "fields_nonneg t =
     (0 \<le> totalSeconds t \<and> 0 \<le> targetSeconds t \<and> 0 \<le> setH t \<and> 0 \<le> setM t \<and> 0 \<le> setS t)"

definition nonneg_world :: "world \<Rightarrow> bool" where
  "nonneg_world w =
     (list_all fields_nonneg (heap w) \<and> list_all (\<lambda>e. 0 \<le> snd (snd (snd e))) (intervals w))"

text \<open>
  Interval identifiers are handed out in increasing order, so every registered one lies
  below \<open>nextId\<close>; and every running card finds, under its \<open>intervalId\<close>, a registered
  callback whose closure holds the card itself.
\<close>

definition fresh_ids :: "world \<Rightarrow> bool" where
  "fresh_ids w = list_all (\<lambda>e. fst e < nextId w) (intervals w)"

definition registered :: "world \<Rightarrow> nat \<Rightarrow> bool" where
  "registered w b =
     (running (heap w ! b) \<longrightarrow>
       (case intervalId (heap w ! b) of
          None \<Rightarrow> False
        | Some k \<Rightarrow> (case map_of (intervals w) k of None \<Rightarrow> False | Some c \<Rightarrow> fst c = b)))"

definition all_registered :: "world \<Rightarrow> bool" where
  "all_registered w = list_all (registered w) [0 ..< length (heap w)]"

definition linked :: "world \<Rightarrow> bool" where
  "linked w = (fresh_ids w \<and> all_registered w)"

text \<open>
  The anchor of a card's current run: what the specification calls \<open>startWallClock\<close> and
  \<open>startSeconds\<close>, that is, the clock reading and the value of \<open>totalSeconds\<close> at the
  latest \<open>start()\<close> of the card that got past both of its guards. It is read off the
  history of the page, event by event, and not off the closure that \<open>start\<close> builds:
  \<open>startable\<close> is the negation of the two guards of \<open>start\<close>, and \<open>anchor\<close> follows
  the run with the state each event finds.
\<close>

definition startable :: "nat \<Rightarrow> world \<Rightarrow> bool" where
  "startable a w =
     (\<not> running (heap w ! a) \<and> \<not> (mode (heap w ! a) = Down \<and> totalSeconds (heap w ! a) \<le> 0))"

fun anchor_step :: "nat \<Rightarrow> world \<Rightarrow> event \<Rightarrow> (int \<times> int) option \<Rightarrow> (int \<times> int) option" where
  "anchor_step a w (StartClick b now) r =
     (if b = a \<and> a < length (heap w) \<and> startable a w
      then Some (now, totalSeconds (heap w ! a)) else r)"
| "anchor_step a w _ r = r"

fun anchor :: "nat \<Rightarrow> world \<Rightarrow> event list \<Rightarrow> (int \<times> int) option \<Rightarrow> (int \<times> int) option" where
  "anchor a w [] r = r"
| "anchor a w (e # es) r = anchor a (step e w) es (anchor_step a w e r)"

text \<open>
  While the card at \<open>a\<close> runs, the closure registered under its \<open>intervalId\<close> holds
  the anchor \<open>r\<close>.
\<close>

definition anchored :: "nat \<Rightarrow> (int \<times> int) option \<Rightarrow> world \<Rightarrow> bool" where
  "anchored a r w =
     (a < length (heap w) \<and> running (heap w ! a) \<longrightarrow>
       (case intervalId (heap w ! a) of
          None \<Rightarrow> True
        | Some k \<Rightarrow>
            (case map_of (intervals w) k of
               None \<Rightarrow> True
             | Some c \<Rightarrow> fst c = a \<longrightarrow> r = Some (snd c))))"

fun is_tick :: "event \<Rightarrow> bool" where
  "is_tick (Tick k now) = True"
| "is_tick _ = False"

subsection \<open>States used as examples\<close>

definition ex_fresh :: world where
  "ex_fresh = run init_world [NewTimer 0]"

definition ex_up :: world where
  "ex_up = run init_world [NewTimer 0, ToggleClick 0 Up]"

definition ex_five :: world where
  "ex_five = run init_world
     [NewTimer 0, PickerClick 0 UnitS True, PickerClick 0 UnitS True, PickerClick 0 UnitS True,
      PickerClick 0 UnitS True, PickerClick 0 UnitS True]"

definition ex_max :: world where
  "ex_max = run ex_fresh
     [PickerClick 0 UnitH False, PickerClick 0 UnitM False, PickerClick 0 UnitS False]"

definition ex_running :: world where
  "ex_running = step (StartClick 0 0) ex_five"

definition ex_up_running :: world where
  "ex_up_running = step (StartClick 0 0) ex_up"

definition ex_two_alarming :: world where
  "ex_two_alarming = run init_world
     [NewTimer 0, NewTimer 1, PickerClick 0 UnitS True, PickerClick 1 UnitS True,
      StartClick 0 0, StartClick 1 0, Tick 0 1000, Tick 1 1250]"

text \<open>
  Two histories. On a two-card screen a count-up card is started at clock 0; then its REC
  button is clicked, the other card is started at clock 5000, and both intervals fire. On
  a one-card screen a countdown of five seconds is started at clock 0, ticked at 2000,
  stopped, and started again at clock 10000.
\<close>

definition ex_history_two :: "event list" where
  "ex_history_two =
     [NewTimer 0, NewTimer 1, ToggleClick 0 Up, ToggleClick 1 Up, StartClick 0 0, RecClick 0,
      StartClick 1 5000, Tick 1 6000, Tick 0 7000]"

definition ex_history_restart :: "event list" where
  "ex_history_restart =
     [NewTimer 0, PickerClick 0 UnitS True, PickerClick 0 UnitS True, PickerClick 0 UnitS True,
      PickerClick 0 UnitS True, PickerClick 0 UnitS True, StartClick 0 0, Tick 0 2000,
      StopClick 0, StartClick 0 10000]"

text \<open>A countdown of five seconds started at clock 0, after three ticks, the last at 4750;
  the same card after the tick at 5000; a count-up card started at 0 and ticked at 3000.\<close>

definition ex_late :: world where
  "ex_late = ticks 0 [250, 500, 4750] ex_running"

definition ex_alarmed :: world where
  "ex_alarmed = tick 0 5000 ex_late"

definition ex_up_late :: world where
  "ex_up_late = ticks 0 [250, 3000] ex_up_running"

section \<open>Basic facts about the operations\<close>

lemma upd_simps:
  "heap (upd a f w) = (heap w)[a := f (heap w ! a)]"
  "intervals (upd a f w) = intervals w"
  "alarm (upd a f w) = alarm w"
  "nextId (upd a f w) = nextId w"
  "playCalls (upd a f w) = playCalls w"
  by (simp_all add: upd_def)

lemma js_rem_nonneg: "0 \<le> a \<Longrightarrow> 0 < b \<Longrightarrow> js_rem a b = a mod b"
  by (cases "a = 0") (simp_all add: js_rem_def)

lemma stop_heap:
  "a < length (heap w) \<Longrightarrow> heap (stop a w) =
     (if running (heap w ! a) then (heap w)[a := (heap w ! a)\<lparr>running := False, intervalId := None\<rparr>]
      else heap w)"
  by (simp add: stop_def Let_def upd_simps clearInterval_def split: option.splits)

lemma stop_intervals:
  "a < length (heap w) \<Longrightarrow> intervals (stop a w) =
     (if running (heap w ! a)
      then (case intervalId (heap w ! a) of None \<Rightarrow> intervals w
            | Some k \<Rightarrow> filter (\<lambda>e. fst e \<noteq> k) (intervals w))
      else intervals w)"
  by (simp add: stop_def Let_def upd_simps clearInterval_def split: option.splits)

lemma stop_rest:
  "alarm (stop a w) = alarm w" "nextId (stop a w) = nextId w" "playCalls (stop a w) = playCalls w"
  by (simp_all add: stop_def Let_def upd_simps clearInterval_def split: option.splits)

lemma stopAlarm_simps:
  "heap (stopAlarm a w) = (heap w)[a := (heap w ! a)\<lparr>alarming := False\<rparr>]"
  "intervals (stopAlarm a w) = intervals w"
  "alarm (stopAlarm a w) = alarm_stop (alarm w)"
  "nextId (stopAlarm a w) = nextId w"
  "playCalls (stopAlarm a w) = playCalls w"
  by (simp_all add: stopAlarm_def Let_def upd_simps)

lemma wf_world_iff:
  "wf_world w \<longleftrightarrow>
     (\<forall>e \<in> set (intervals w). owner_ok (heap w) e) \<and> (\<forall>i < length (heap w). countdown_ok (heap w ! i))"
  by (simp add: wf_world_def list_all_iff all_set_conv_all_nth)

lemma wf_stop: "wf_world w \<Longrightarrow> a < length (heap w) \<Longrightarrow> wf_world (stop a w)"
  unfolding wf_world_iff
  by (auto simp: stop_heap stop_intervals owner_ok_def countdown_ok_def nth_list_update
      split: option.splits)

lemma wf_stopAlarm: "wf_world w \<Longrightarrow> a < length (heap w) \<Longrightarrow> wf_world (stopAlarm a w)"
  unfolding wf_world_iff
  by (auto simp: stopAlarm_simps owner_ok_def countdown_ok_def nth_list_update)

lemma length_heap_upd: "length (heap (upd a f w)) = length (heap w)"
  by (simp add: upd_simps)

lemma length_heap_stop: "length (heap (stop a w)) = length (heap w)"
  by (simp add: stop_def Let_def upd_simps clearInterval_def split: option.splits)

lemma length_heap_stopAlarm: "length (heap (stopAlarm a w)) = length (heap w)"
  by (simp add: stopAlarm_simps)

lemma wf_upd_same:
  assumes "wf_world w" "a < length (heap w)"
    and "running (f (heap w ! a)) = running (heap w ! a)"
    and "intervalId (f (heap w ! a)) = intervalId (heap w ! a)"
    and "countdown_ok (f (heap w ! a))"
  shows "wf_world (upd a f w)"
  using assms unfolding wf_world_iff
  by (auto simp: upd_simps owner_ok_def nth_list_update)

lemma not_running_after_stop: "a < length (heap w) \<Longrightarrow> \<not> running (heap (stop a w) ! a)"
  by (simp add: stop_heap)

lemma wf_reset: "wf_world w \<Longrightarrow> a < length (heap w) \<Longrightarrow> wf_world (reset a w)"
  unfolding reset_def Let_def
  by (auto intro!: wf_upd_same wf_stop wf_stopAlarm
      simp: length_heap_stop length_heap_stopAlarm countdown_ok_def not_running_after_stop)

lemma wf_destroy: "wf_world w \<Longrightarrow> a < length (heap w) \<Longrightarrow> wf_world (destroy a w)"
  unfolding destroy_def
  by (simp add: wf_stop wf_stopAlarm length_heap_stopAlarm)

lemma wf_alarm_irrelevant: "wf_world (w\<lparr>alarm := al, playCalls := n\<rparr>) = wf_world w"
  "wf_world (w\<lparr>alarm := al\<rparr>) = wf_world w"
  by (simp_all add: wf_world_def)

lemma wf_triggerAlarm: "wf_world w \<Longrightarrow> a < length (heap w) \<Longrightarrow> wf_world (triggerAlarm a w)"
  unfolding triggerAlarm_def Let_def
  by (auto intro!: wf_upd_same wf_stop 
      simp: wf_alarm_irrelevant length_heap_stop length_heap_upd countdown_ok_def not_running_after_stop upd_simps)

lemma wf_start: "wf_world w \<Longrightarrow> a < length (heap w) \<Longrightarrow> wf_world (start a now w)"
  unfolding wf_world_iff
  by (auto simp: start_def Let_def setInterval_def upd_simps owner_ok_def countdown_ok_def nth_list_update)

lemma wf_countdown: "wf_world w \<Longrightarrow> a < length (heap w) \<Longrightarrow> countdown_ok (heap w ! a)"
  by (simp add: wf_world_iff)

lemma wf_trigger_after_write:
  assumes "wf_world w" "a < length (heap w)"
  shows "wf_world (triggerAlarm a (upd a (\<lambda>t. t\<lparr>totalSeconds := v\<rparr>) w))"
proof -
  let ?w1 = "upd a (\<lambda>t. t\<lparr>totalSeconds := v\<rparr>) w"
  have len: "a < length (heap ?w1)" using assms by (simp add: upd_simps)
  have "wf_world (stop a ?w1)"
    using assms unfolding wf_world_iff
    by (auto simp: stop_heap stop_intervals upd_simps owner_ok_def countdown_ok_def nth_list_update
        split: option.splits)
  moreover have "\<not> running (heap (stop a ?w1) ! a)"
    using len by (rule not_running_after_stop)
  ultimately show ?thesis
    using assms unfolding triggerAlarm_def Let_def
    by (auto intro!: wf_upd_same
        simp: wf_alarm_irrelevant length_heap_stop length_heap_upd countdown_ok_def upd_simps)
qed

lemma wf_interval_callback:
  "wf_world w \<Longrightarrow> a < length (heap w) \<Longrightarrow> wf_world (interval_callback a st ss now w)"
  unfolding interval_callback_def Let_def
  by (auto intro!: wf_upd_same wf_trigger_after_write dest: wf_countdown
      simp: length_heap_upd countdown_ok_def upd_simps)

lemma wf_tick: "wf_world w \<Longrightarrow> wf_world (tick k now w)"
proof -
  assume w: "wf_world w"
  show ?thesis
  proof (cases "map_of (intervals w) k")
    case None
    then show ?thesis using w by (simp add: tick_def)
  next
    case (Some c)
    obtain a st ss where c: "c = (a, st, ss)" by (cases c) auto
    from Some have "(k, c) \<in> set (intervals w)" by (rule map_of_SomeD)
    with w c have "a < length (heap w)" by (auto simp: wf_world_iff owner_ok_def)
    with w Some c show ?thesis by (simp add: tick_def wf_interval_callback)
  qed
qed

lemma wf_toggle_click: "wf_world w \<Longrightarrow> a < length (heap w) \<Longrightarrow> wf_world (toggle_click a m w)"
  unfolding toggle_click_def
  by (auto intro!: wf_reset wf_upd_same simp: length_heap_upd countdown_ok_def)

lemma wf_picker_click: "wf_world w \<Longrightarrow> a < length (heap w) \<Longrightarrow> wf_world (picker_click a u up w)"
  unfolding picker_click_def
  by (cases u) (auto intro!: wf_upd_same simp: countdown_ok_def adjustPicker_def Let_def set_unit_def)

lemma wf_rec_click: "wf_world w \<Longrightarrow> a < length (heap w) \<Longrightarrow> wf_world (rec_click a w)"
  unfolding rec_click_def
  by (auto intro!: wf_upd_same dest: wf_countdown simp: countdown_ok_def)

lemma wf_card_click: "wf_world w \<Longrightarrow> a < length (heap w) \<Longrightarrow> wf_world (card_click a w)"
  by (simp add: card_click_def wf_stopAlarm)

lemma wf_new_Timer: "wf_world w \<Longrightarrow> wf_world (new_Timer i w)"
  unfolding wf_world_iff
  by (auto simp: new_Timer_def owner_ok_def nth_append countdown_ok_def Timer_new_def)

lemma wf_step: "wf_world w \<Longrightarrow> wf_world (step e w)"
  by (cases e)
     (simp_all add: wf_new_Timer wf_toggle_click wf_picker_click wf_rec_click wf_start wf_stop
        wf_reset wf_card_click wf_destroy wf_tick)

lemma wf_run: "wf_world w \<Longrightarrow> wf_world (run w es)"
  by (induction es arbitrary: w) (simp_all add: wf_step)

lemma wf_init: "wf_world init_world"
  by (simp add: wf_world_def init_world_def)

lemma adjustPicker_sync:
  "targetSeconds (adjustPicker u d t) = setH (adjustPicker u d t) * 3600 + setM (adjustPicker u d t) * 60 + setS (adjustPicker u d t)"
  "totalSeconds (adjustPicker u d t) = targetSeconds (adjustPicker u d t)"
  "mode (adjustPicker u d t) = mode t"
  by (cases u; simp add: adjustPicker_def Let_def set_unit_def)+

lemma owned_nil_iff: "owned a w = [] \<longleftrightarrow> (\<forall>e \<in> set (intervals w). fst (snd e) \<noteq> a)"
  by (auto simp: owned_def filter_empty_conv)

lemma owned_stop: "wf_world w \<Longrightarrow> a < length (heap w) \<Longrightarrow> owned a (stop a w) = []"
  unfolding owned_nil_iff wf_world_iff
  by (auto simp: stop_intervals owner_ok_def split: option.splits)

lemma stop_heap_other: "a < length (heap w) \<Longrightarrow> b \<noteq> a \<Longrightarrow> heap (stop a w) ! b = heap w ! b"
  by (simp add: stop_heap)

lemma stop_intervals_subset: "a < length (heap w) \<Longrightarrow> set (intervals (stop a w)) \<subseteq> set (intervals w)"
  by (auto simp: stop_intervals split: option.splits)

lemma triggerAlarm_heap:
  "a < length (heap w) \<Longrightarrow> heap (triggerAlarm a w) =
     (heap (stop a w))[a := (heap (stop a w) ! a)\<lparr>totalSeconds := 0, alarming := True\<rparr>]"
  by (simp add: triggerAlarm_def Let_def upd_simps length_heap_stop)

lemma triggerAlarm_rest:
  "intervals (triggerAlarm a w) = intervals (stop a w)"
  "nextId (triggerAlarm a w) = nextId w"
  "playCalls (triggerAlarm a w) = Suc (playCalls w)"
  "alarm (triggerAlarm a w) = alarm_play (alarm w)"
  "length (heap (triggerAlarm a w)) = length (heap w)"
  by (simp_all add: triggerAlarm_def Let_def upd_simps stop_rest length_heap_stop)

lemma length_heap_interval_callback:
  "length (heap (interval_callback a st ss now w)) = length (heap w)"
  by (simp add: interval_callback_def Let_def upd_simps triggerAlarm_rest)

lemma interval_callback_heap_other:
  "a < length (heap w) \<Longrightarrow> b \<noteq> a \<Longrightarrow> heap (interval_callback a st ss now w) ! b = heap w ! b"
  by (simp add: interval_callback_def Let_def upd_simps triggerAlarm_heap stop_heap)

lemma interval_callback_intervals_subset:
  "a < length (heap w) \<Longrightarrow> set (intervals (interval_callback a st ss now w)) \<subseteq> set (intervals w)"
  using stop_intervals_subset [of a "upd a (\<lambda>t. t\<lparr>totalSeconds := max 0 (ss - (now - st) div 1000)\<rparr>) w"]
  by (auto simp: interval_callback_def Let_def upd_simps triggerAlarm_rest)

lemma interval_callback_total:
  "a < length (heap w) \<Longrightarrow>
   totalSeconds (heap (interval_callback a st ss now w) ! a) =
     (if mode (heap w ! a) = Up then ss + (now - st) div 1000
      else max 0 (ss - (now - st) div 1000))"
  by (auto simp: interval_callback_def Let_def upd_simps triggerAlarm_heap length_heap_stop)

lemma tick_unregistered: "map_of (intervals w) k = None \<Longrightarrow> tick k now w = w"
  by (simp add: tick_def)

lemma tick_registered:
  "map_of (intervals w) k = Some (a, st, ss) \<Longrightarrow> tick k now w = interval_callback a st ss now w"
  by (simp add: tick_def)

lemma ticks_unregistered: "map_of (intervals w) k = None \<Longrightarrow> ticks k ns w = w"
  by (induction ns) (simp_all add: tick_unregistered)

lemma map_of_filter_key: "map_of (filter (\<lambda>e. fst e \<noteq> k) xs) k = None"
  by (induction xs) auto

lemma wf_owner:
  "wf_world w \<Longrightarrow> map_of (intervals w) k = Some (a, st, ss) \<Longrightarrow>
     a < length (heap w) \<and> running (heap w ! a) \<and> intervalId (heap w ! a) = Some k"
  by (auto simp: wf_world_iff owner_ok_def dest!: map_of_SomeD)

lemma start_proceeds:
  assumes "a < length (heap w)" and "\<not> running (heap w ! a)"
    and "mode (heap w ! a) = Up \<or> 0 < totalSeconds (heap w ! a)"
  shows "heap (start a now w) = (heap w)[a := (heap w ! a)\<lparr>running := True, intervalId := Some (nextId w)\<rparr>]"
    and "intervals (start a now w) = (nextId w, a, now, totalSeconds (heap w ! a)) # intervals w"
    and "nextId (start a now w) = Suc (nextId w)"
    and "playCalls (start a now w) = playCalls w"
  using assms by (auto simp: start_def Let_def setInterval_def upd_simps)

lemma tick_elsewhere:
  assumes "wf_world w" and "a < length (heap w)" and "owned a w = []"
  shows "heap (tick k now w) ! a = heap w ! a \<and> owned a (tick k now w) = []
     \<and> length (heap (tick k now w)) = length (heap w)"
proof (cases "map_of (intervals w) k")
  case None
  then show ?thesis using assms by (simp add: tick_unregistered)
next
  case (Some c)
  obtain b st ss where c: "c = (b, st, ss)" by (cases c) auto
  have reg: "map_of (intervals w) k = Some (b, st, ss)" using Some c by simp
  have b: "b < length (heap w)" using wf_owner [OF assms(1) reg] by simp
  have "(k, b, st, ss) \<in> set (intervals w)" using reg by (rule map_of_SomeD)
  then have ne: "a \<noteq> b" using assms(3) by (auto simp: owned_nil_iff)
  show ?thesis
    using assms(3) ne interval_callback_intervals_subset [OF b, of st ss now]
    by (auto simp: tick_registered [OF reg] interval_callback_heap_other [OF b]
        length_heap_interval_callback owned_nil_iff)
qed

lemma ticks_elsewhere:
  assumes "list_all is_tick es"
  shows "wf_world w \<Longrightarrow> a < length (heap w) \<Longrightarrow> owned a w = [] \<Longrightarrow>
     heap (run w es) ! a = heap w ! a \<and> owned a (run w es) = []"
  using assms
proof (induction es arbitrary: w)
  case Nil
  then show ?case by simp
next
  case (Cons e es)
  from Cons.prems(4) obtain k now where e: "e = Tick k now" by (cases e) auto
  from Cons.prems(4) have rest: "list_all is_tick es" by simp
  note t = tick_elsewhere [OF Cons.prems(1-3), of k now]
  have "heap (run (tick k now w) es) ! a = heap (tick k now w) ! a \<and> owned a (run (tick k now w) es) = []"
    using Cons.IH [OF wf_tick [OF Cons.prems(1)] _ _ rest] t Cons.prems(2) by simp
  then show ?case using e t by simp
qed

lemma ticks_no_intervals:
  "list_all is_tick es \<Longrightarrow> intervals w = [] \<Longrightarrow> run w es = w"
proof (induction es)
  case Nil
  then show ?case by simp
next
  case (Cons e es)
  then obtain k now where "e = Tick k now" by (cases e) auto
  with Cons show ?case by (simp add: tick_def)
qed

lemma reset_as_composition:
  "reset a w = upd a (\<lambda>t. t\<lparr>totalSeconds := (if mode t = Down then targetSeconds t else 0)\<rparr>)
                 (stop a (stopAlarm a w))"
  by (simp add: reset_def Let_def upd_def)

lemma interval_callback_alarm:
  assumes "a < length (heap w)" and "running (heap w ! a)" and "intervalId (heap w ! a) = Some k"
    and "mode (heap w ! a) = Down" and "ss - (now - st) div 1000 \<le> 0"
  shows "heap (interval_callback a st ss now w) =
           (heap w)[a := (heap w ! a)\<lparr>running := False, intervalId := None, totalSeconds := 0,
                                     alarming := True\<rparr>]"
    and "intervals (interval_callback a st ss now w) = filter (\<lambda>e. fst e \<noteq> k) (intervals w)"
    and "playCalls (interval_callback a st ss now w) = Suc (playCalls w)"
    and "alarm (interval_callback a st ss now w) = alarm_play (alarm w)"
    and "nextId (interval_callback a st ss now w) = nextId w"
  using assms
  by (simp_all add: interval_callback_def Let_def upd_simps triggerAlarm_heap triggerAlarm_rest
      stop_heap stop_intervals stop_rest)

lemma interval_callback_continue:
  assumes "a < length (heap w)" and "mode (heap w ! a) = Up \<or> 0 < ss - (now - st) div 1000"
  shows "interval_callback a st ss now w =
     upd a (\<lambda>t. t\<lparr>totalSeconds := (if mode (heap w ! a) = Up then ss + (now - st) div 1000
                                       else ss - (now - st) div 1000)\<rparr>) w"
  using assms by (auto simp: interval_callback_def Let_def upd_simps)

lemma playing_alarm_play: "playing (alarm_play al)"
  by (simp add: alarm_play_def alarm_init_def beepLoop_def Let_def)

lemma stop_running:
  assumes "a < length (heap w)" and "running (heap w ! a)"
  shows "heap (stop a w) = (heap w)[a := (heap w ! a)\<lparr>running := False, intervalId := None\<rparr>]"
  using assms by (simp add: stop_heap)

subsection \<open>Every running card has its callback, and the callback holds the anchor\<close>

lemma map_of_filter_other: "k \<noteq> k' \<Longrightarrow> map_of (filter (\<lambda>e. fst e \<noteq> k') xs) k = map_of xs k"
  by (induction xs) auto

lemma fresh_ids_iff: "fresh_ids w \<longleftrightarrow> (\<forall>e \<in> set (intervals w). fst e < nextId w)"
  by (simp add: fresh_ids_def list_all_iff)

lemma registered_iff:
  "registered w b \<longleftrightarrow>
     (running (heap w ! b) \<longrightarrow>
        (\<exists>k st ss. intervalId (heap w ! b) = Some k \<and> map_of (intervals w) k = Some (b, st, ss)))"
  by (auto simp: registered_def split: option.splits)

lemma all_registered_iff:
  "all_registered w \<longleftrightarrow> (\<forall>b < length (heap w). registered w b)"
  by (auto simp: all_registered_def list_all_iff)

lemma stop_nextId_fresh: "fresh_ids w \<Longrightarrow> a < length (heap w) \<Longrightarrow> fresh_ids (stop a w)"
  using stop_intervals_subset [of a w] by (auto simp: fresh_ids_iff stop_rest)

lemma registered_stop:
  assumes "all_registered w" and "a < length (heap w)"
  shows "all_registered (stop a w)"
proof (cases "running (heap w ! a)")
  case False
  then show ?thesis using assms by (simp add: stop_def)
next
  case True
  then obtain k st ss where ia: "intervalId (heap w ! a) = Some k"
    and ka: "map_of (intervals w) k = Some (a, st, ss)"
    using assms by (auto simp: all_registered_iff registered_iff)
  have h: "heap (stop a w) = (heap w)[a := (heap w ! a)\<lparr>running := False, intervalId := None\<rparr>]"
    and i: "intervals (stop a w) = filter (\<lambda>e. fst e \<noteq> k) (intervals w)"
    using assms(2) True ia by (simp_all add: stop_heap stop_intervals)
  show ?thesis
    unfolding all_registered_iff
  proof (intro allI impI)
    fix b assume b: "b < length (heap (stop a w))"
    show "registered (stop a w) b"
    proof (cases "b = a")
      case True
      then show ?thesis using assms(2) by (simp add: registered_iff h)
    next
      case False
      have rb: "registered w b" using assms(1) b by (simp add: all_registered_iff h)
      show ?thesis
      proof (cases "running (heap w ! b)")
        case nr: False
        then show ?thesis using False by (simp add: registered_iff h)
      next
        case rn: True
        then obtain kb sb tb where ib: "intervalId (heap w ! b) = Some kb"
          and kb: "map_of (intervals w) kb = Some (b, sb, tb)"
          using rb by (auto simp: registered_iff)
        have "kb \<noteq> k" using kb ka False by auto
        then show ?thesis using False ib kb by (simp add: registered_iff h i map_of_filter_other)
      qed
    qed
  qed
qed

lemma registered_upd_same:
  assumes "all_registered w"
    and "running (f (heap w ! a)) = running (heap w ! a)"
    and "intervalId (f (heap w ! a)) = intervalId (heap w ! a)"
  shows "all_registered (upd a f w)"
proof (cases "a < length (heap w)")
  case True
  then show ?thesis
    using assms by (auto simp: all_registered_iff registered_iff upd_simps nth_list_update)
next
  case False
  then show ?thesis using assms(1) by (simp add: all_registered_iff registered_iff upd_simps)
qed

lemma fresh_upd: "fresh_ids (upd a f w) = fresh_ids w"
  by (simp add: fresh_ids_def upd_simps)

lemma fresh_alarm_irrelevant:
  "fresh_ids (w\<lparr>alarm := al\<rparr>) = fresh_ids w"
  "fresh_ids (w\<lparr>alarm := al, playCalls := n\<rparr>) = fresh_ids w"
  by (simp_all add: fresh_ids_def)

lemma registered_alarm_irrelevant:
  "all_registered (w\<lparr>alarm := al\<rparr>) = all_registered w"
  "all_registered (w\<lparr>alarm := al, playCalls := n\<rparr>) = all_registered w"
  by (simp_all add: all_registered_iff registered_iff)

lemma linked_upd_same:
  assumes "linked w"
    and "running (f (heap w ! a)) = running (heap w ! a)"
    and "intervalId (f (heap w ! a)) = intervalId (heap w ! a)"
  shows "linked (upd a f w)"
  using assms by (simp add: linked_def fresh_upd registered_upd_same)

lemma linked_alarm_irrelevant:
  "linked (w\<lparr>alarm := al\<rparr>) = linked w"
  "linked (w\<lparr>alarm := al, playCalls := n\<rparr>) = linked w"
  by (simp_all add: linked_def fresh_alarm_irrelevant registered_alarm_irrelevant)

lemma linked_stop: "linked w \<Longrightarrow> a < length (heap w) \<Longrightarrow> linked (stop a w)"
  by (simp add: linked_def stop_nextId_fresh registered_stop)

lemma linked_stopAlarm: "linked w \<Longrightarrow> linked (stopAlarm a w)"
  unfolding stopAlarm_def Let_def
  by (auto intro!: linked_upd_same simp: linked_alarm_irrelevant)

lemma linked_reset: "linked w \<Longrightarrow> a < length (heap w) \<Longrightarrow> linked (reset a w)"
  unfolding reset_def Let_def
  by (auto intro!: linked_upd_same linked_stop linked_stopAlarm simp: length_heap_stopAlarm)

lemma linked_destroy: "linked w \<Longrightarrow> a < length (heap w) \<Longrightarrow> linked (destroy a w)"
  by (simp add: destroy_def linked_stop linked_stopAlarm length_heap_stopAlarm)

lemma linked_triggerAlarm: "linked w \<Longrightarrow> a < length (heap w) \<Longrightarrow> linked (triggerAlarm a w)"
  unfolding triggerAlarm_def Let_def
  by (auto intro!: linked_upd_same linked_stop simp: linked_alarm_irrelevant)

lemma linked_interval_callback:
  "linked w \<Longrightarrow> a < length (heap w) \<Longrightarrow> linked (interval_callback a st ss now w)"
  unfolding interval_callback_def Let_def
  by (auto intro!: linked_upd_same linked_triggerAlarm simp: length_heap_upd)

lemma linked_tick: "wf_world w \<Longrightarrow> linked w \<Longrightarrow> linked (tick k now w)"
proof (cases "map_of (intervals w) k")
  case None
  then show "linked w \<Longrightarrow> ?thesis" by (simp add: tick_def)
next
  case (Some c)
  assume w: "wf_world w" and l: "linked w"
  obtain a st ss where c: "c = (a, st, ss)" by (cases c) auto
  have "a < length (heap w)" using wf_owner [OF w] Some c by simp
  then show ?thesis using l Some c by (simp add: tick_def linked_interval_callback)
qed

lemma linked_start: "linked w \<Longrightarrow> a < length (heap w) \<Longrightarrow> linked (start a now w)"
proof -
  assume l: "linked w" and a: "a < length (heap w)"
  show ?thesis
  proof (cases "startable a w")
    case False
    then have "start a now w = w\<lparr>alarm := alarm_init (alarm w)\<rparr>"
      by (auto simp: start_def Let_def startable_def)
    then show ?thesis using l by (simp add: linked_alarm_irrelevant)
  next
    case True
    then have nr: "\<not> running (heap w ! a)"
      and ok: "mode (heap w ! a) = Up \<or> 0 < totalSeconds (heap w ! a)"
      by (cases "mode (heap w ! a)"; auto simp: startable_def)+
    note s = start_proceeds [OF a nr ok, of now]
    have "fresh_ids (start a now w)"
      using l by (auto simp: linked_def fresh_ids_iff s)
    moreover have "all_registered (start a now w)"
      unfolding all_registered_iff
    proof (intro allI impI)
      fix b assume "b < length (heap (start a now w))"
      then have b: "b < length (heap w)" by (simp add: s)
      show "registered (start a now w) b"
      proof (cases "b = a")
        case True
        then show ?thesis using a by (simp add: registered_iff s)
      next
        case False
        have rb: "registered w b" using l b by (simp add: linked_def all_registered_iff)
        show ?thesis
        proof (cases "running (heap w ! b)")
          case nrb: False
          then show ?thesis using False by (simp add: registered_iff s)
        next
          case rnb: True
          then obtain kb sb tb where ib: "intervalId (heap w ! b) = Some kb"
            and kb: "map_of (intervals w) kb = Some (b, sb, tb)"
            using rb by (auto simp: registered_iff)
          have "(kb, b, sb, tb) \<in> set (intervals w)" using kb by (rule map_of_SomeD)
          then have "kb < nextId w" using l by (auto simp: linked_def fresh_ids_iff)
          then show ?thesis using False ib kb by (simp add: registered_iff s)
        qed
      qed
    qed
    ultimately show ?thesis by (simp add: linked_def)
  qed
qed

lemma linked_toggle_click: "linked w \<Longrightarrow> a < length (heap w) \<Longrightarrow> linked (toggle_click a m w)"
  unfolding toggle_click_def
  by (auto intro!: linked_reset linked_upd_same simp: length_heap_upd)

lemma linked_picker_click: "linked w \<Longrightarrow> linked (picker_click a u up w)"
  unfolding picker_click_def
  by (cases u) (auto intro!: linked_upd_same simp: adjustPicker_def Let_def set_unit_def)

lemma linked_rec_click: "linked w \<Longrightarrow> linked (rec_click a w)"
  unfolding rec_click_def by (auto intro!: linked_upd_same)

lemma linked_card_click: "linked w \<Longrightarrow> linked (card_click a w)"
  by (simp add: card_click_def linked_stopAlarm)

lemma linked_new_Timer: "linked w \<Longrightarrow> linked (new_Timer i w)"
  by (auto simp: linked_def fresh_ids_def all_registered_iff registered_iff new_Timer_def
      nth_append Timer_new_def)

lemma linked_step: "wf_world w \<Longrightarrow> linked w \<Longrightarrow> linked (step e w)"
  by (cases e)
     (simp_all add: linked_new_Timer linked_toggle_click linked_picker_click linked_rec_click
        linked_start linked_stop linked_reset linked_card_click linked_destroy linked_tick)

lemma linked_init: "linked init_world"
  by (simp add: linked_def fresh_ids_def all_registered_def init_world_def)

lemma linked_run: "wf_world w \<Longrightarrow> linked w \<Longrightarrow> linked (run w es)"
  by (induction es arbitrary: w) (simp_all add: linked_step wf_step)

lemma anchored_iff:
  "anchored a r w \<longleftrightarrow>
     (\<forall>k st ss. a < length (heap w) \<and> running (heap w ! a) \<and> intervalId (heap w ! a) = Some k
        \<and> map_of (intervals w) k = Some (a, st, ss) \<longrightarrow> r = Some (st, ss))"
  by (auto simp: anchored_def split: option.splits)

lemma anchored_not_running: "\<not> running (heap w ! a) \<Longrightarrow> anchored a r w"
  by (simp add: anchored_def)

lemma anchored_same:
  assumes "anchored a r w" and "length (heap w') = length (heap w)"
    and "running (heap w' ! a) \<Longrightarrow> running (heap w ! a)"
    and "running (heap w' ! a) \<Longrightarrow> intervalId (heap w' ! a) = intervalId (heap w ! a)"
    and "\<And>k c. running (heap w' ! a) \<Longrightarrow> intervalId (heap w ! a) = Some k \<Longrightarrow>
           map_of (intervals w') k = Some c \<Longrightarrow> fst c = a \<Longrightarrow> map_of (intervals w) k = Some c"
  shows "anchored a r w'"
  using assms unfolding anchored_iff by (metis fst_conv)

lemma map_of_filter_SomeD:
  "map_of (filter (\<lambda>e. fst e \<noteq> k') xs) k = Some c \<Longrightarrow> map_of xs k = Some c"
  by (cases "k = k'") (simp_all add: map_of_filter_key map_of_filter_other)

lemma anchored_upd:
  assumes "anchored a r w"
    and "running (f (heap w ! b)) = running (heap w ! b)"
    and "intervalId (f (heap w ! b)) = intervalId (heap w ! b)"
  shows "anchored a r (upd b f w)"
proof (cases "b < length (heap w)")
  case True
  show ?thesis
    using assms(1)
    by (rule anchored_same)
       (use True assms(2,3) in \<open>auto simp: upd_simps nth_list_update split: if_splits\<close>)
next
  case False
  then have "heap (upd b f w) = heap w" by (simp add: upd_simps list_update_beyond)
  then show ?thesis using assms(1) by (simp add: anchored_iff upd_simps(2))
qed

lemma anchored_alarm_irrelevant:
  "anchored a r (w\<lparr>alarm := al\<rparr>) = anchored a r w"
  "anchored a r (w\<lparr>alarm := al, playCalls := n\<rparr>) = anchored a r w"
  by (simp_all add: anchored_iff)

lemma anchored_stop:
  assumes "anchored a r w" and "b < length (heap w)"
  shows "anchored a r (stop b w)"
proof (cases "b = a")
  case True
  then show ?thesis using assms(2) by (simp add: anchored_not_running not_running_after_stop)
next
  case False
  show ?thesis
    using assms(1)
  proof (rule anchored_same)
    show "length (heap (stop b w)) = length (heap w)" by (rule length_heap_stop)
    show "running (heap (stop b w) ! a) \<Longrightarrow> running (heap w ! a)"
      using False assms(2) by (simp add: stop_heap_other)
    show "running (heap (stop b w) ! a) \<Longrightarrow> intervalId (heap (stop b w) ! a) = intervalId (heap w ! a)"
      using False assms(2) by (simp add: stop_heap_other)
    show "map_of (intervals (stop b w)) k = Some c \<Longrightarrow> map_of (intervals w) k = Some c" for k c
      using assms(2) by (auto simp: stop_intervals split: if_splits option.splits dest: map_of_filter_SomeD)
  qed
qed

lemma anchored_stopAlarm: "anchored a r w \<Longrightarrow> anchored a r (stopAlarm b w)"
  unfolding stopAlarm_def Let_def
  by (auto intro!: anchored_upd simp: anchored_alarm_irrelevant)

lemma anchored_reset: "anchored a r w \<Longrightarrow> b < length (heap w) \<Longrightarrow> anchored a r (reset b w)"
  unfolding reset_def Let_def
  by (auto intro!: anchored_upd anchored_stop anchored_stopAlarm simp: length_heap_stopAlarm)

lemma anchored_destroy: "anchored a r w \<Longrightarrow> b < length (heap w) \<Longrightarrow> anchored a r (destroy b w)"
  by (simp add: destroy_def anchored_stop anchored_stopAlarm length_heap_stopAlarm)

lemma anchored_triggerAlarm:
  "anchored a r w \<Longrightarrow> b < length (heap w) \<Longrightarrow> anchored a r (triggerAlarm b w)"
  unfolding triggerAlarm_def Let_def
  by (auto intro!: anchored_upd anchored_stop simp: anchored_alarm_irrelevant)

lemma anchored_interval_callback:
  "anchored a r w \<Longrightarrow> b < length (heap w) \<Longrightarrow> anchored a r (interval_callback b st ss now w)"
  unfolding interval_callback_def Let_def
  by (auto intro!: anchored_upd anchored_triggerAlarm simp: length_heap_upd)

lemma anchored_tick: "wf_world w \<Longrightarrow> anchored a r w \<Longrightarrow> anchored a r (tick k now w)"
proof (cases "map_of (intervals w) k")
  case None
  then show "anchored a r w \<Longrightarrow> ?thesis" by (simp add: tick_def)
next
  case (Some c)
  assume w: "wf_world w" and l: "anchored a r w"
  obtain b st ss where c: "c = (b, st, ss)" by (cases c) auto
  have "b < length (heap w)" using wf_owner [OF w] Some c by simp
  then show ?thesis using l Some c by (simp add: tick_def anchored_interval_callback)
qed

lemma anchored_start:
  assumes "anchored a r w" and "b < length (heap w)"
  shows "anchored a (anchor_step a w (StartClick b now) r) (start b now w)"
proof (cases "startable b w")
  case False
  then have "start b now w = w\<lparr>alarm := alarm_init (alarm w)\<rparr>"
    by (auto simp: start_def Let_def startable_def)
  then show ?thesis using assms(1) False by (auto simp: anchored_alarm_irrelevant)
next
  case True
  then have nr: "\<not> running (heap w ! b)"
    and ok: "mode (heap w ! b) = Up \<or> 0 < totalSeconds (heap w ! b)"
    by (cases "mode (heap w ! b)"; auto simp: startable_def)+
  note s = start_proceeds [OF assms(2) nr ok, of now]
  show ?thesis
  proof (cases "b = a")
    case a: True
    show ?thesis
      unfolding a [symmetric] using assms(2) True by (simp add: anchored_iff s)
  next
    case False
    have "anchored a r (start b now w)"
      using assms(1)
    proof (rule anchored_same)
      show "length (heap (start b now w)) = length (heap w)" by (simp add: s)
      show "running (heap (start b now w) ! a) \<Longrightarrow> running (heap w ! a)"
        using False by (simp add: s)
      show "running (heap (start b now w) ! a) \<Longrightarrow>
            intervalId (heap (start b now w) ! a) = intervalId (heap w ! a)"
        using False by (simp add: s)
    next
      fix k c
      assume "map_of (intervals (start b now w)) k = Some c" and "fst c = a"
      then show "map_of (intervals w) k = Some c"
        using False by (auto simp: s split: if_splits)
    qed
    then show ?thesis using False by simp
  qed
qed

lemma anchored_toggle_click:
  "anchored a r w \<Longrightarrow> b < length (heap w) \<Longrightarrow> anchored a r (toggle_click b m w)"
  unfolding toggle_click_def
  by (auto intro!: anchored_reset anchored_upd simp: length_heap_upd)

lemma anchored_picker_click: "anchored a r w \<Longrightarrow> anchored a r (picker_click b u up w)"
  unfolding picker_click_def
  by (cases u) (auto intro!: anchored_upd simp: adjustPicker_def Let_def set_unit_def)

lemma anchored_rec_click: "anchored a r w \<Longrightarrow> anchored a r (rec_click b w)"
  unfolding rec_click_def by (auto intro!: anchored_upd)

lemma anchored_card_click: "anchored a r w \<Longrightarrow> anchored a r (card_click b w)"
  by (simp add: card_click_def anchored_stopAlarm)

lemma anchored_new_Timer: "anchored a r w \<Longrightarrow> anchored a r (new_Timer i w)"
  by (auto simp: anchored_iff new_Timer_def nth_append Timer_new_def split: if_splits)

lemma anchored_step:
  "wf_world w \<Longrightarrow> anchored a r w \<Longrightarrow> anchored a (anchor_step a w e r) (step e w)"
proof (cases e)
  case (StartClick b now)
  assume "anchored a r w"
  then show ?thesis
    using StartClick anchored_start [of a r w b now]
    by (cases "b < length (heap w)") (auto simp del: anchor_step.simps simp: anchor_step.simps(1))
qed (simp_all add: anchored_new_Timer anchored_toggle_click anchored_picker_click
       anchored_rec_click anchored_stop anchored_reset anchored_card_click anchored_destroy
       anchored_tick)

lemma anchored_run:
  "wf_world w \<Longrightarrow> anchored a r w \<Longrightarrow> anchored a (anchor a w es r) (run w es)"
  by (induction es arbitrary: w r) (simp_all add: anchored_step wf_step)

lemma wf_reachable: "wf_world (run init_world es)"
  using wf_init by (rule wf_run)

subsection \<open>Seconds and picker values never negative\<close>

lemma nonneg_world_iff:
  "nonneg_world w \<longleftrightarrow>
     (\<forall>i < length (heap w). fields_nonneg (heap w ! i)) \<and>
     (\<forall>e \<in> set (intervals w). 0 \<le> snd (snd (snd e)))"
  by (simp add: nonneg_world_def list_all_iff all_set_conv_all_nth)

lemma nonneg_upd:
  assumes "nonneg_world w" and "fields_nonneg (heap w ! a) \<Longrightarrow> fields_nonneg (f (heap w ! a))"
  shows "nonneg_world (upd a f w)"
proof (cases "a < length (heap w)")
  case True
  then show ?thesis using assms by (auto simp: nonneg_world_iff upd_simps nth_list_update)
next
  case False
  then show ?thesis using assms by (simp add: nonneg_world_iff upd_simps)
qed

lemma nonneg_clearInterval: "nonneg_world w \<Longrightarrow> nonneg_world (clearInterval ido w)"
  by (cases ido) (auto simp: clearInterval_def nonneg_world_iff)

lemma nonneg_stop: "nonneg_world w \<Longrightarrow> nonneg_world (stop a w)"
  unfolding stop_def Let_def
  by (auto intro!: nonneg_upd nonneg_clearInterval simp: fields_nonneg_def)

lemma nonneg_alarm_irrelevant:
  "nonneg_world (w\<lparr>alarm := al\<rparr>) = nonneg_world w"
  "nonneg_world (w\<lparr>alarm := al, playCalls := n\<rparr>) = nonneg_world w"
  by (simp_all add: nonneg_world_def)

lemma nonneg_stopAlarm: "nonneg_world w \<Longrightarrow> nonneg_world (stopAlarm a w)"
  unfolding stopAlarm_def Let_def
  by (auto intro!: nonneg_upd simp: fields_nonneg_def nonneg_alarm_irrelevant)

lemma nonneg_reset: "nonneg_world w \<Longrightarrow> nonneg_world (reset a w)"
  unfolding reset_def Let_def
  by (auto intro!: nonneg_upd nonneg_stop nonneg_stopAlarm simp: fields_nonneg_def)

lemma nonneg_destroy: "nonneg_world w \<Longrightarrow> nonneg_world (destroy a w)"
  by (simp add: destroy_def nonneg_stop nonneg_stopAlarm)

lemma nonneg_triggerAlarm: "nonneg_world w \<Longrightarrow> nonneg_world (triggerAlarm a w)"
  unfolding triggerAlarm_def Let_def
  by (auto intro!: nonneg_upd nonneg_stop simp: fields_nonneg_def nonneg_alarm_irrelevant)

lemma nonneg_start: "nonneg_world w \<Longrightarrow> a < length (heap w) \<Longrightarrow> nonneg_world (start a now w)"
  unfolding nonneg_world_iff
  by (auto simp: start_def Let_def setInterval_def upd_simps nth_list_update fields_nonneg_def)

lemma nonneg_interval_callback:
  assumes "nonneg_world w" and "0 \<le> ss" and "mode (heap w ! a) = Up \<longrightarrow> st \<le> now"
  shows "nonneg_world (interval_callback a st ss now w)"
proof -
  have "mode (heap w ! a) = Up \<Longrightarrow> 0 \<le> ss + (now - st) div 1000"
    using assms(2,3) by (simp add: pos_imp_zdiv_nonneg_iff)
  then show ?thesis
    unfolding interval_callback_def Let_def
    using assms(1)
    by (auto intro!: nonneg_upd nonneg_triggerAlarm simp: fields_nonneg_def)
qed

lemma nonneg_tick:
  assumes "nonneg_world w" and "tick_after_start w (Tick k now)"
  shows "nonneg_world (tick k now w)"
proof (cases "map_of (intervals w) k")
  case None
  then show ?thesis using assms by (simp add: tick_def)
next
  case (Some c)
  obtain a st ss where c: "c = (a, st, ss)" by (cases c) auto
  have "(k, a, st, ss) \<in> set (intervals w)" using Some c by (auto dest: map_of_SomeD)
  then have "0 \<le> ss" using assms(1) by (auto simp: nonneg_world_iff)
  moreover have "mode (heap w ! a) = Up \<longrightarrow> st \<le> now" using assms(2) Some c by simp
  ultimately show ?thesis
    using assms(1) Some c by (simp add: tick_def nonneg_interval_callback)
qed

lemma adjustPicker_nonneg: "fields_nonneg t \<Longrightarrow> - 1 \<le> d \<Longrightarrow> fields_nonneg (adjustPicker u d t)"
  by (cases u)
     (auto simp: fields_nonneg_def adjustPicker_def Let_def set_unit_def unit_val_def unit_max_def
        js_rem_nonneg)

lemma nonneg_picker_click: "nonneg_world w \<Longrightarrow> nonneg_world (picker_click a u up w)"
  unfolding picker_click_def
  by (auto intro!: nonneg_upd adjustPicker_nonneg)

lemma nonneg_toggle_click: "nonneg_world w \<Longrightarrow> nonneg_world (toggle_click a m w)"
  unfolding toggle_click_def
  by (auto intro!: nonneg_reset nonneg_upd simp: fields_nonneg_def)

lemma nonneg_rec_click: "nonneg_world w \<Longrightarrow> nonneg_world (rec_click a w)"
  unfolding rec_click_def
  by (auto intro!: nonneg_upd simp: fields_nonneg_def)

lemma nonneg_card_click: "nonneg_world w \<Longrightarrow> nonneg_world (card_click a w)"
  by (simp add: card_click_def nonneg_stopAlarm)

lemma nonneg_new_Timer: "nonneg_world w \<Longrightarrow> nonneg_world (new_Timer i w)"
  by (simp add: nonneg_world_def new_Timer_def fields_nonneg_def Timer_new_def)

lemma nonneg_step: "nonneg_world w \<Longrightarrow> tick_after_start w e \<Longrightarrow> nonneg_world (step e w)"
  by (cases e)
     (simp_all add: nonneg_new_Timer nonneg_toggle_click nonneg_picker_click nonneg_rec_click
        nonneg_start nonneg_stop nonneg_reset nonneg_card_click nonneg_destroy nonneg_tick)

lemma nonneg_run: "nonneg_world w \<Longrightarrow> clock_ok w es \<Longrightarrow> nonneg_world (run w es)"
  by (induction es arbitrary: w) (simp_all add: nonneg_step)

lemma clock_ok_take: "clock_ok w es \<Longrightarrow> clock_ok w (take n es)"
proof (induction es arbitrary: w n)
  case Nil
  then show ?case by simp
next
  case (Cons e es)
  then show ?case by (cases n) simp_all
qed

lemma nonneg_init: "nonneg_world init_world"
  by (simp add: nonneg_world_def init_world_def)

section \<open>The picker\<close>

text \<open>
  Claim C4. On a card that is not running, one step of an arrow button takes a unit value
  \<open>v\<close> in its range (0 to 23 for hours, 0 to 59 for minutes and seconds) to
  \<open>(v + dir) mod (max + 1)\<close>, where \<open>dir\<close> is \<open>1\<close> for the up arrow and \<open>-1\<close> for the
  down arrow: the argument of the program's \<open>%\<close> is never negative there, so the
  truncating remainder is the mathematical one. The examples are hours 23 up to 0, minutes
  and seconds 59 up to 0, and each unit 0 down to its maximum.
\<close>

theorem adjust_step_wraps:
  assumes "a < length (heap w)" and "\<not> running (heap w ! a)"
    and "0 \<le> unit_val u (heap w ! a)" and "unit_val u (heap w ! a) \<le> unit_max u"
  shows "unit_val u (heap (picker_click a u up w) ! a)
         = (unit_val u (heap w ! a) + (if up then 1 else - 1)) mod (unit_max u + 1)"
  using assms
  by (cases u)
     (auto simp: picker_click_def upd_simps adjustPicker_def Let_def unit_val_def set_unit_def
        unit_max_def js_rem_nonneg)

theorem adjust_step_wraps_witness:
  "unit_val UnitH (heap ex_max ! 0) = 23 \<and> unit_val UnitH (heap (picker_click 0 UnitH True ex_max) ! 0) = 0
   \<and> unit_val UnitM (heap ex_max ! 0) = 59 \<and> unit_val UnitM (heap (picker_click 0 UnitM True ex_max) ! 0) = 0
   \<and> unit_val UnitS (heap ex_max ! 0) = 59 \<and> unit_val UnitS (heap (picker_click 0 UnitS True ex_max) ! 0) = 0
   \<and> unit_val UnitH (heap ex_fresh ! 0) = 0 \<and> unit_val UnitH (heap (picker_click 0 UnitH False ex_fresh) ! 0) = 23
   \<and> unit_val UnitM (heap ex_fresh ! 0) = 0 \<and> unit_val UnitM (heap (picker_click 0 UnitM False ex_fresh) ! 0) = 59
   \<and> unit_val UnitS (heap ex_fresh ! 0) = 0 \<and> unit_val UnitS (heap (picker_click 0 UnitS False ex_fresh) ! 0) = 59"
proof -
  have m: "0 < length (heap ex_max)" "\<not> running (heap ex_max ! 0)"
    and mv: "unit_val UnitH (heap ex_max ! 0) = 23" "unit_val UnitM (heap ex_max ! 0) = 59"
      "unit_val UnitS (heap ex_max ! 0) = 59"
    by code_simp+
  have f: "0 < length (heap ex_fresh)" "\<not> running (heap ex_fresh ! 0)"
    and fv: "unit_val UnitH (heap ex_fresh ! 0) = 0" "unit_val UnitM (heap ex_fresh ! 0) = 0"
      "unit_val UnitS (heap ex_fresh ! 0) = 0"
    by code_simp+
  have "unit_val UnitH (heap (picker_click 0 UnitH True ex_max) ! 0) = 0"
    using adjust_step_wraps [OF m, of UnitH True] by (simp add: mv unit_max_def)
  moreover have "unit_val UnitM (heap (picker_click 0 UnitM True ex_max) ! 0) = 0"
    using adjust_step_wraps [OF m, of UnitM True] by (simp add: mv unit_max_def)
  moreover have "unit_val UnitS (heap (picker_click 0 UnitS True ex_max) ! 0) = 0"
    using adjust_step_wraps [OF m, of UnitS True] by (simp add: mv unit_max_def)
  moreover have "unit_val UnitH (heap (picker_click 0 UnitH False ex_fresh) ! 0) = 23"
    using adjust_step_wraps [OF f, of UnitH False] by (simp add: fv unit_max_def)
  moreover have "unit_val UnitM (heap (picker_click 0 UnitM False ex_fresh) ! 0) = 59"
    using adjust_step_wraps [OF f, of UnitM False] by (simp add: fv unit_max_def)
  moreover have "unit_val UnitS (heap (picker_click 0 UnitS False ex_fresh) ! 0) = 59"
    using adjust_step_wraps [OF f, of UnitS False] by (simp add: fv unit_max_def)
  ultimately show ?thesis using mv fv by simp
qed

text \<open>
  Claim C3, as far as it holds. On a card that is not running an adjustment recomputes
  \<open>targetSeconds\<close> as \<open>h * 3600 + m * 60 + s\<close> from the unit values after the
  adjustment and then sets \<open>totalSeconds\<close> to \<open>targetSeconds\<close>. It does so in either
  mode: \<open>_adjustPicker\<close> and \<open>_syncFromPicker\<close> have no test of the mode, and the arrow
  handler tests \<open>running\<close> only (a count-up card hides its picker instead). So on a
  count-up card the adjustment does change \<open>totalSeconds\<close>; the first theorem shows it
  on a fresh count-up card, where one step of the seconds arrow takes \<open>totalSeconds\<close>
  from 0 to 1.
\<close>

theorem adjust_countup_counterexample:
  "mode (heap ex_up ! 0) = Up \<and> \<not> running (heap ex_up ! 0)
   \<and> totalSeconds (heap ex_up ! 0) = 0
   \<and> totalSeconds (heap (picker_click 0 UnitS True ex_up) ! 0) = 1
   \<and> totalSeconds (heap (picker_click 0 UnitS True ex_up) ! 0) \<noteq> totalSeconds (heap ex_up ! 0)"
  by code_simp

text \<open>
  Claim C3, amended. Not running, either mode: after an arrow step \<open>targetSeconds\<close> is
  \<open>setH * 3600 + setM * 60 + setS\<close> of the new unit values and \<open>totalSeconds\<close> equals
  it, the mode being unchanged; and after the drum pickers have reported the values
  \<open>h\<close>, \<open>m\<close>, \<open>s\<close>, both are \<open>h * 3600 + m * 60 + s\<close>.
\<close>

theorem adjust_sets_total_in_either_mode:
  assumes "a < length (heap w)" and "\<not> running (heap w ! a)"
  shows "targetSeconds (heap (picker_click a u up w) ! a)
           = setH (heap (picker_click a u up w) ! a) * 3600
             + setM (heap (picker_click a u up w) ! a) * 60
             + setS (heap (picker_click a u up w) ! a)
     \<and> totalSeconds (heap (picker_click a u up w) ! a)
           = targetSeconds (heap (picker_click a u up w) ! a)
     \<and> mode (heap (picker_click a u up w) ! a) = mode (heap w ! a)
     \<and> targetSeconds (heap (drum_change a UnitS s (drum_change a UnitM m (drum_change a UnitH h w))) ! a)
           = h * 3600 + m * 60 + s
     \<and> totalSeconds (heap (drum_change a UnitS s (drum_change a UnitM m (drum_change a UnitH h w))) ! a)
           = h * 3600 + m * 60 + s"
  using assms
  by (simp add: picker_click_def upd_simps adjustPicker_sync drum_change_def syncFromPicker_def
      set_unit_def Let_def)

theorem adjust_sets_total_in_either_mode_witness:
  "\<not> running (heap ex_up ! 0) \<and> mode (heap ex_up ! 0) = Up
   \<and> totalSeconds (heap (picker_click 0 UnitS True ex_up) ! 0)
       = targetSeconds (heap (picker_click 0 UnitS True ex_up) ! 0)
   \<and> targetSeconds (heap (picker_click 0 UnitS True ex_up) ! 0) = 1
   \<and> \<not> running (heap ex_fresh ! 0) \<and> mode (heap ex_fresh ! 0) = Down
   \<and> totalSeconds (heap (picker_click 0 UnitM True ex_fresh) ! 0) = 60
   \<and> totalSeconds (heap (drum_change 0 UnitS 3 (drum_change 0 UnitM 2 (drum_change 0 UnitH 1 ex_fresh))) ! 0)
       = 3723"
proof -
  have u: "0 < length (heap ex_up)" "\<not> running (heap ex_up ! 0)"
    and um: "mode (heap ex_up ! 0) = Up"
    and uv: "setH (heap (picker_click 0 UnitS True ex_up) ! 0) = 0"
      "setM (heap (picker_click 0 UnitS True ex_up) ! 0) = 0"
      "setS (heap (picker_click 0 UnitS True ex_up) ! 0) = 1"
    by code_simp+
  have f: "0 < length (heap ex_fresh)" "\<not> running (heap ex_fresh ! 0)"
    and fm: "mode (heap ex_fresh ! 0) = Down"
    and fv: "setH (heap (picker_click 0 UnitM True ex_fresh) ! 0) = 0"
      "setM (heap (picker_click 0 UnitM True ex_fresh) ! 0) = 1"
      "setS (heap (picker_click 0 UnitM True ex_fresh) ! 0) = 0"
    by code_simp+
  show ?thesis
    using adjust_sets_total_in_either_mode [OF u, of UnitS True 3 2 1]
      adjust_sets_total_in_either_mode [OF f, of UnitM True 3 2 1]
    by (simp add: u f um fm uv fv)
qed

section \<open>Starting\<close>

text \<open>
  Claim C5. \<open>start\<close> changes nothing of the card when the card is already running, and
  nothing when it is a countdown with no seconds left: every field of every timer object
  is as before, no callback is registered (the table of intervals and the next identifier
  are as before), so a card that was not running stays so. The one effect is on the shared
  alarm object: \<open>alarm.init()\<close> is the first statement of \<open>start\<close>, before either
  test, and creates the audio context if there is none; the \<open>playing\<close> flag is untouched.
\<close>

theorem start_refused_is_noop:
  assumes "running (heap w ! a) \<or> (mode (heap w ! a) = Down \<and> totalSeconds (heap w ! a) \<le> 0)"
  shows "heap (start a now w) = heap w \<and> intervals (start a now w) = intervals w
     \<and> nextId (start a now w) = nextId w \<and> playCalls (start a now w) = playCalls w
     \<and> playing (alarm (start a now w)) = playing (alarm w)
     \<and> start a now w = w\<lparr>alarm := alarm_init (alarm w)\<rparr>"
  using assms by (auto simp: start_def Let_def alarm_init_def)

theorem start_refused_is_noop_witness:
  "running (heap ex_running ! 0) \<and> heap (start 0 1234 ex_running) = heap ex_running
   \<and> intervals (start 0 1234 ex_running) = intervals ex_running
   \<and> mode (heap ex_fresh ! 0) = Down \<and> totalSeconds (heap ex_fresh ! 0) = 0
   \<and> heap (start 0 1234 ex_fresh) = heap ex_fresh \<and> intervals (start 0 1234 ex_fresh) = []
   \<and> \<not> running (heap (start 0 1234 ex_fresh) ! 0)"
proof -
  have r: "running (heap ex_running ! 0)" by code_simp
  have f: "mode (heap ex_fresh ! 0) = Down" "totalSeconds (heap ex_fresh ! 0) = 0"
    "intervals ex_fresh = []" "\<not> running (heap ex_fresh ! 0)"
    by code_simp+
  show ?thesis
    using start_refused_is_noop [of ex_running 0 1234] start_refused_is_noop [of ex_fresh 0 1234]
    by (simp add: r f)
qed

section \<open>The shared alarm\<close>

text \<open>
  Claim C10. There is one alarm object for the whole page, with one \<open>playing\<close> flag. When
  two different cards are both alarming, acknowledging the alarm on either of them
  (\<open>stopAlarm\<close>, which is what a click on an alarming card runs) sets the shared flag to
  false and empties the list of oscillators, so the sound stops for both, while the other
  card keeps its \<open>alarming\<close> class.
\<close>

theorem acknowledge_silences_shared_alarm:
  assumes "a < length (heap w)" and "b < length (heap w)" and "a \<noteq> b"
    and "alarming (heap w ! a)" and "alarming (heap w ! b)"
  shows "\<not> playing (alarm (stopAlarm a w)) \<and> oscillators (alarm (stopAlarm a w)) = 0
     \<and> alarming (heap (stopAlarm a w) ! b) \<and> \<not> alarming (heap (stopAlarm a w) ! a)
     \<and> card_click a w = stopAlarm a w"
  using assms by (simp add: stopAlarm_simps alarm_stop_def card_click_def)

theorem acknowledge_silences_shared_alarm_witness:
  "alarming (heap ex_two_alarming ! 0) \<and> alarming (heap ex_two_alarming ! 1)
   \<and> playing (alarm ex_two_alarming)
   \<and> \<not> playing (alarm (stopAlarm 0 ex_two_alarming))
   \<and> alarming (heap (stopAlarm 0 ex_two_alarming) ! 1)
   \<and> \<not> playing (alarm (stopAlarm 1 ex_two_alarming))
   \<and> alarming (heap (stopAlarm 1 ex_two_alarming) ! 0)"
proof -
  have l0: "0 < length (heap ex_two_alarming)" and l1: "1 < length (heap ex_two_alarming)"
    and a0: "alarming (heap ex_two_alarming ! 0)" and a1: "alarming (heap ex_two_alarming ! 1)"
    and p: "playing (alarm ex_two_alarming)"
    by code_simp+
  have ne: "(0::nat) \<noteq> 1" "(1::nat) \<noteq> 0" by simp_all
  show ?thesis
    using acknowledge_silences_shared_alarm [OF l0 l1 ne(1) a0 a1]
      acknowledge_silences_shared_alarm [OF l1 l0 ne(2) a1 a0] a0 a1 p
    by blast
qed

section \<open>Ticks\<close>

text \<open>
  Claim C1. Take any state the page reaches from its initial state, by any sequence of
  events whatever (cards created and destroyed, modes toggled, pickers stepped, REC
  clicked, this card and other cards started, stopped and reset, intervals fired at any
  clock readings), and any card that is running in it. Then the card has an interval
  \<open>k\<close> registered whose closure holds the anchor of the card's current run: the clock
  reading \<open>t0\<close> and the value \<open>v\<close> of \<open>totalSeconds\<close> at the card's latest
  \<open>start()\<close> that got past its guards. And a tick of \<open>k\<close> that reads the clock
  \<open>now\<close> leaves \<open>totalSeconds = v + (now - t0) div 1000\<close> on a count-up card and
  \<open>max 0 (v - (now - t0) div 1000)\<close> on a countdown. The value is a function of
  \<open>now\<close> and the anchor alone: neither the value the earlier ticks left nor their
  number or timing enters, and nothing that happened on the page since the start has
  moved the anchor.
\<close>

theorem tick_recomputes_from_clock:
  assumes "a < length (heap (run init_world es))" and "running (heap (run init_world es) ! a)"
  shows "\<exists>k t0 v. intervalId (heap (run init_world es) ! a) = Some k
        \<and> map_of (intervals (run init_world es)) k = Some (a, t0, v)
        \<and> anchor a init_world es None = Some (t0, v)
        \<and> totalSeconds (heap (tick k now (run init_world es)) ! a)
            = (if mode (heap (run init_world es) ! a) = Up
               then v + (now - t0) div 1000
               else max 0 (v - (now - t0) div 1000))"
proof -
  let ?w = "run init_world es"
  have "linked ?w" using wf_init linked_init by (rule linked_run)
  then have "registered ?w a" using assms(1) by (simp add: linked_def all_registered_iff)
  then obtain k t0 v where i: "intervalId (heap ?w ! a) = Some k"
    and reg: "map_of (intervals ?w) k = Some (a, t0, v)"
    using assms(2) by (auto simp: registered_iff)
  have "anchored a (anchor a init_world es None) ?w"
    using wf_init by (rule anchored_run) (simp add: anchored_def init_world_def)
  then have anc: "anchor a init_world es None = Some (t0, v)"
    using assms i reg by (simp add: anchored_iff)
  have "totalSeconds (heap (tick k now ?w) ! a)
          = (if mode (heap ?w ! a) = Up then v + (now - t0) div 1000
             else max 0 (v - (now - t0) div 1000))"
    unfolding tick_registered [OF reg] interval_callback_total [OF assms(1)] ..
  then show ?thesis using i reg anc by blast
qed

theorem tick_recomputes_from_clock_witness:
  "running (heap (run init_world ex_history_two) ! 0)
   \<and> anchor 0 init_world ex_history_two None = Some (0, 0)
   \<and> totalSeconds (heap (run init_world ex_history_two) ! 0) = 7
   \<and> totalSeconds (heap (tick 0 12000 (run init_world ex_history_two)) ! 0) = 12
   \<and> running (heap (run init_world ex_history_restart) ! 0)
   \<and> anchor 0 init_world ex_history_restart None = Some (10000, 3)
   \<and> totalSeconds (heap (tick 1 11999 (run init_world ex_history_restart)) ! 0) = 2"
proof -
  have t: "0 < length (heap (run init_world ex_history_two))"
    "running (heap (run init_world ex_history_two) ! 0)"
    and tv: "intervalId (heap (run init_world ex_history_two) ! 0) = Some 0"
      "anchor 0 init_world ex_history_two None = Some (0, 0)"
      "mode (heap (run init_world ex_history_two) ! 0) = Up"
      "totalSeconds (heap (run init_world ex_history_two) ! 0) = 7"
    by code_simp+
  have r: "0 < length (heap (run init_world ex_history_restart))"
    "running (heap (run init_world ex_history_restart) ! 0)"
    and rv: "intervalId (heap (run init_world ex_history_restart) ! 0) = Some 1"
      "anchor 0 init_world ex_history_restart None = Some (10000, 3)"
      "mode (heap (run init_world ex_history_restart) ! 0) = Down"
    by code_simp+
  have "totalSeconds (heap (tick 0 12000 (run init_world ex_history_two)) ! 0) = 12"
    using tick_recomputes_from_clock [OF t, of 12000] by (auto simp: tv)
  moreover have "totalSeconds (heap (tick 1 11999 (run init_world ex_history_restart)) ! 0) = 2"
    using tick_recomputes_from_clock [OF r, of 11999] by (auto simp: rv)
  ultimately show ?thesis using t(2) r(2) tv rv by simp
qed

text \<open>
  Claim C2. Take a reachable state in which interval \<open>k\<close> is registered for the countdown
  card \<open>a\<close>, with start reading \<open>st\<close> and start seconds \<open>ss\<close>. A tick that still finds
  seconds left (\<open>0 < ss - (now - st) div 1000\<close>) stores them, leaves the card running and
  the interval registered, and does not call \<open>alarm.play()\<close>. The first tick that finds
  none cancels the interval, sets \<open>running\<close> to false and \<open>totalSeconds\<close> to 0, marks
  the card alarming and calls \<open>alarm.play()\<close> once; after it no tick of \<open>k\<close> changes
  anything, whatever the clock, so the count of calls stays one higher than before.
\<close>

theorem countdown_zero_alarms_once:
  assumes "wf_world w" and "map_of (intervals w) k = Some (a, st, ss)"
    and "mode (heap w ! a) = Down"
  shows "if 0 < ss - (now - st) div 1000
         then running (heap (tick k now w) ! a)
            \<and> map_of (intervals (tick k now w)) k = Some (a, st, ss)
            \<and> totalSeconds (heap (tick k now w) ! a) = ss - (now - st) div 1000
            \<and> alarming (heap (tick k now w) ! a) = alarming (heap w ! a)
            \<and> playCalls (tick k now w) = playCalls w
         else map_of (intervals (tick k now w)) k = None
            \<and> owned a (tick k now w) = []
            \<and> \<not> running (heap (tick k now w) ! a)
            \<and> totalSeconds (heap (tick k now w) ! a) = 0
            \<and> alarming (heap (tick k now w) ! a)
            \<and> playing (alarm (tick k now w))
            \<and> playCalls (tick k now w) = Suc (playCalls w)
            \<and> ticks k ns (tick k now w) = tick k now w
            \<and> playCalls (ticks k ns (tick k now w)) = Suc (playCalls w)"
proof (cases "0 < ss - (now - st) div 1000")
  case True
  note own = wf_owner [OF assms(1,2)]
  have "tick k now w = upd a (\<lambda>t. t\<lparr>totalSeconds := ss - (now - st) div 1000\<rparr>) w"
    using interval_callback_continue [of a w ss now st] True assms(3) own
    by (simp add: tick_registered [OF assms(2)])
  then show ?thesis using True own assms(2) by (simp add: upd_simps)
next
  case False
  note own = wf_owner [OF assms(1,2)]
  have le: "ss - (now - st) div 1000 \<le> 0" using False by simp
  have a: "a < length (heap w)" and r: "running (heap w ! a)"
    and i: "intervalId (heap w ! a) = Some k"
    using own by simp_all
  note eff = interval_callback_alarm [OF a r i assms(3) le]
  have t: "tick k now w = interval_callback a st ss now w"
    by (rule tick_registered [OF assms(2)])
  have unreg: "map_of (intervals (tick k now w)) k = None"
    by (simp add: t eff map_of_filter_key)
  have still: "ticks k ns (tick k now w) = tick k now w"
    using unreg by (rule ticks_unregistered)
  have "wf_world (tick k now w)" using assms(1) by (rule wf_tick)
  moreover have "\<not> running (heap (tick k now w) ! a)" using a by (simp add: t eff)
  ultimately have own': "owned a (tick k now w) = []"
    using a by (auto simp: owned_nil_iff wf_world_iff owner_ok_def)
  show ?thesis
    using False unreg still own' a by (simp add: t [symmetric]) (simp add: t eff playing_alarm_play)
qed

theorem countdown_zero_alarms_once_witness:
  "wf_world ex_late \<and> map_of (intervals ex_late) 0 = Some (0, 0, 5) \<and> mode (heap ex_late ! 0) = Down
   \<and> running (heap (tick 0 4999 ex_late) ! 0) \<and> totalSeconds (heap (tick 0 4999 ex_late) ! 0) = 1
   \<and> playCalls (tick 0 4999 ex_late) = 0
   \<and> \<not> running (heap (tick 0 5000 ex_late) ! 0) \<and> totalSeconds (heap (tick 0 5000 ex_late) ! 0) = 0
   \<and> alarming (heap (tick 0 5000 ex_late) ! 0) \<and> playCalls (tick 0 5000 ex_late) = 1
   \<and> playCalls (ticks 0 [5250, 5500, 5750] (tick 0 5000 ex_late)) = 1"
proof -
  have h: "wf_world ex_late" "map_of (intervals ex_late) 0 = Some (0, 0, 5)"
    "mode (heap ex_late ! 0) = Down"
    and p: "playCalls ex_late = 0"
    by code_simp+
  show ?thesis
    using countdown_zero_alarms_once [OF h, of 4999 "[]"]
      countdown_zero_alarms_once [OF h, of 5000 "[5250, 5500, 5750]"] h p
    by simp
qed

section \<open>Stopping, resetting, destroying\<close>

text \<open>
  Claim C6. In a reachable state, \<open>stop\<close> on a running card sets \<open>running\<close> to false
  and leaves no registered callback of the card, while \<open>totalSeconds\<close>,
  \<open>targetSeconds\<close> and the mode stay as they are. A \<open>start\<close> after it, at clock
  reading \<open>t1\<close>, runs again, and a tick \<open>k\<close> whole seconds later shows \<open>v + k\<close> on a
  count-up card and \<open>max 0 (v - k)\<close> on a countdown, where \<open>v\<close> is the value at the
  moment of the stop: the count resumes from \<open>v\<close>, not from the target.
\<close>

theorem stop_then_start_resumes:
  assumes "wf_world w" and "a < length (heap w)" and "running (heap w ! a)"
  shows "\<not> running (heap (stop a w) ! a) \<and> owned a (stop a w) = []
     \<and> totalSeconds (heap (stop a w) ! a) = totalSeconds (heap w ! a)
     \<and> targetSeconds (heap (stop a w) ! a) = targetSeconds (heap w ! a)
     \<and> mode (heap (stop a w) ! a) = mode (heap w ! a)
     \<and> running (heap (start a t1 (stop a w)) ! a)
     \<and> totalSeconds (heap (tick (nextId w) (t1 + 1000 * int k) (start a t1 (stop a w))) ! a)
          = (if mode (heap w ! a) = Up then totalSeconds (heap w ! a) + int k
             else max 0 (totalSeconds (heap w ! a) - int k))"
proof -
  let ?w1 = "stop a w"
  let ?v = "totalSeconds (heap w ! a)"
  have h1: "heap ?w1 ! a = (heap w ! a)\<lparr>running := False, intervalId := None\<rparr>"
    using assms(2,3) by (simp add: stop_running)
  have len1: "a < length (heap ?w1)" using assms(2) by (simp add: length_heap_stop)
  have nr: "\<not> running (heap ?w1 ! a)" by (simp add: h1)
  have "countdown_ok (heap w ! a)" using assms(1,2) by (rule wf_countdown)
  then have ok: "mode (heap ?w1 ! a) = Up \<or> 0 < totalSeconds (heap ?w1 ! a)"
    using assms(3) by (cases "mode (heap w ! a)") (auto simp: h1 countdown_ok_def)
  note s = start_proceeds [OF len1 nr ok, of t1]
  have reg: "map_of (intervals (start a t1 ?w1)) (nextId w) = Some (a, t1, ?v)"
    by (simp add: s stop_rest h1)
  have len2: "a < length (heap (start a t1 ?w1))" using len1 by (simp add: s)
  have m2: "mode (heap (start a t1 ?w1) ! a) = mode (heap w ! a)"
    using len1 by (simp add: s h1)
  have el: "(t1 + 1000 * int k - t1) div 1000 = int k" by simp
  have "totalSeconds (heap (tick (nextId w) (t1 + 1000 * int k) (start a t1 ?w1)) ! a)
          = (if mode (heap w ! a) = Up then ?v + int k else max 0 (?v - int k))"
    unfolding tick_registered [OF reg] interval_callback_total [OF len2] m2 el ..
  moreover have "running (heap (start a t1 ?w1) ! a)" using len1 by (simp add: s)
  ultimately show ?thesis
    using nr owned_stop [OF assms(1,2)] by (simp add: h1)
qed

theorem stop_then_start_resumes_witness:
  "running (heap ex_late ! 0) \<and> totalSeconds (heap ex_late ! 0) = 1
   \<and> targetSeconds (heap ex_late ! 0) = 5
   \<and> totalSeconds (heap (stop 0 ex_late) ! 0) = 1
   \<and> totalSeconds (heap (tick 1 (10000 + 1000 * int 3) (start 0 10000 (stop 0 ex_late))) ! 0) = 0
   \<and> running (heap ex_up_late ! 0) \<and> totalSeconds (heap ex_up_late ! 0) = 3
   \<and> totalSeconds (heap (tick 1 (10000 + 1000 * int 2) (start 0 10000 (stop 0 ex_up_late))) ! 0) = 5"
proof -
  have d: "wf_world ex_late" "0 < length (heap ex_late)" "running (heap ex_late ! 0)"
    and dv: "totalSeconds (heap ex_late ! 0) = 1" "targetSeconds (heap ex_late ! 0) = 5"
      "mode (heap ex_late ! 0) = Down" "nextId ex_late = 1"
    by code_simp+
  have u: "wf_world ex_up_late" "0 < length (heap ex_up_late)" "running (heap ex_up_late ! 0)"
    and uv: "totalSeconds (heap ex_up_late ! 0) = 3" "mode (heap ex_up_late ! 0) = Up"
      "nextId ex_up_late = 1"
    by code_simp+
  show ?thesis
    using stop_then_start_resumes [OF d, of 10000 3] stop_then_start_resumes [OF u, of 10000 2] d u
    by (simp add: dv uv)
qed

text \<open>
  Claim C7. In a reachable state, whatever the card is doing, \<open>reset\<close> is \<open>stopAlarm\<close>,
  then \<open>stop\<close>, then the assignment of \<open>targetSeconds\<close> (countdown) or 0 (count-up)
  to \<open>totalSeconds\<close>. Afterwards the alarm is silent, the card is neither alarming nor
  running, none of its callbacks is registered, and mode and target are as before.
\<close>

theorem reset_returns_to_idle:
  assumes "wf_world w" and "a < length (heap w)"
  shows "reset a w = upd a (\<lambda>t. t\<lparr>totalSeconds := (if mode t = Down then targetSeconds t else 0)\<rparr>)
                       (stop a (stopAlarm a w))
     \<and> \<not> playing (alarm (reset a w)) \<and> \<not> alarming (heap (reset a w) ! a)
     \<and> \<not> running (heap (reset a w) ! a) \<and> owned a (reset a w) = []
     \<and> totalSeconds (heap (reset a w) ! a)
          = (if mode (heap w ! a) = Down then targetSeconds (heap w ! a) else 0)
     \<and> mode (heap (reset a w) ! a) = mode (heap w ! a)
     \<and> targetSeconds (heap (reset a w) ! a) = targetSeconds (heap w ! a)"
proof -
  let ?w1 = "stopAlarm a w"
  have wf1: "wf_world ?w1" and len1: "a < length (heap ?w1)"
    using assms by (simp_all add: wf_stopAlarm stopAlarm_simps)
  have own: "owned a (stop a ?w1) = []" using wf1 len1 by (rule owned_stop)
  have len2: "a < length (heap (stop a ?w1))" using len1 by (simp add: length_heap_stop)
  have t1: "heap ?w1 ! a = (heap w ! a)\<lparr>alarming := False\<rparr>"
    using assms by (simp add: stopAlarm_simps)
  show ?thesis
    unfolding reset_as_composition
    using own len1 len2 assms(2)
    by (auto simp: upd_simps stop_rest stopAlarm_simps alarm_stop_def owned_def stop_heap)
qed

theorem reset_returns_to_idle_witness:
  "alarming (heap ex_alarmed ! 0) \<and> playing (alarm ex_alarmed)
   \<and> totalSeconds (heap ex_alarmed ! 0) = 0
   \<and> \<not> alarming (heap (reset 0 ex_alarmed) ! 0) \<and> \<not> playing (alarm (reset 0 ex_alarmed))
   \<and> totalSeconds (heap (reset 0 ex_alarmed) ! 0) = 5
   \<and> running (heap ex_late ! 0) \<and> \<not> running (heap (reset 0 ex_late) ! 0)
   \<and> intervals (reset 0 ex_late) = [] \<and> totalSeconds (heap (reset 0 ex_late) ! 0) = 5
   \<and> running (heap ex_up_late ! 0) \<and> totalSeconds (heap ex_up_late ! 0) = 3
   \<and> \<not> running (heap (reset 0 ex_up_late) ! 0) \<and> totalSeconds (heap (reset 0 ex_up_late) ! 0) = 0"
proof -
  have a: "wf_world ex_alarmed" "0 < length (heap ex_alarmed)"
    and av: "alarming (heap ex_alarmed ! 0)" "playing (alarm ex_alarmed)"
      "totalSeconds (heap ex_alarmed ! 0) = 0" "mode (heap ex_alarmed ! 0) = Down"
      "targetSeconds (heap ex_alarmed ! 0) = 5"
    by code_simp+
  have d: "wf_world ex_late" "0 < length (heap ex_late)"
    and dv: "running (heap ex_late ! 0)" "mode (heap ex_late ! 0) = Down"
      "targetSeconds (heap ex_late ! 0) = 5" "intervals (reset 0 ex_late) = []"
    by code_simp+
  have u: "wf_world ex_up_late" "0 < length (heap ex_up_late)"
    and uv: "running (heap ex_up_late ! 0)" "mode (heap ex_up_late ! 0) = Up"
      "totalSeconds (heap ex_up_late ! 0) = 3"
    by code_simp+
  show ?thesis
    using reset_returns_to_idle [OF a, THEN conjunct2]
      reset_returns_to_idle [OF d, THEN conjunct2] reset_returns_to_idle [OF u, THEN conjunct2]
    by (simp add: av dv uv)
qed

text \<open>
  Claim C9. In a reachable state, \<open>destroy\<close> silences the alarm, clears the card's
  \<open>alarming\<close> class, sets \<open>running\<close> to false and leaves no registered callback
  whose closure holds the card. Whatever intervals the browser fires afterwards, however
  many and at whatever clock readings, the card's object stays exactly as \<open>destroy\<close>
  left it (so it is never set alarming again) and no callback of it reappears; and when
  the card held the only registered callbacks, as on a screen whose other cards are
  idle, the whole page state stays as it is, the count of \<open>alarm.play()\<close> calls
  included.
\<close>

theorem destroy_cancels_callback:
  assumes "wf_world w" and "a < length (heap w)" and "list_all is_tick es"
  shows "owned a (destroy a w) = [] \<and> \<not> running (heap (destroy a w) ! a)
     \<and> \<not> alarming (heap (destroy a w) ! a) \<and> \<not> playing (alarm (destroy a w))
     \<and> heap (run (destroy a w) es) ! a = heap (destroy a w) ! a
     \<and> owned a (run (destroy a w) es) = []
     \<and> (owned a w = intervals w \<longrightarrow> run (destroy a w) es = destroy a w)"
proof -
  let ?w1 = "stopAlarm a w"
  have wf1: "wf_world ?w1" and len1: "a < length (heap ?w1)"
    using assms by (simp_all add: wf_stopAlarm stopAlarm_simps)
  have wf2: "wf_world (destroy a w)" using assms by (simp add: wf_destroy)
  have len2: "a < length (heap (destroy a w))"
    using len1 by (simp add: destroy_def length_heap_stop)
  have own: "owned a (destroy a w) = []"
    unfolding destroy_def using wf1 len1 by (rule owned_stop)
  have st: "\<not> running (heap (destroy a w) ! a)" "\<not> alarming (heap (destroy a w) ! a)"
    "\<not> playing (alarm (destroy a w))"
    using assms(2) len1
    by (auto simp: destroy_def stop_heap stop_rest stopAlarm_simps alarm_stop_def)
  have "run (destroy a w) es = destroy a w" if all: "owned a w = intervals w"
  proof -
    have "set (intervals (destroy a w)) \<subseteq> set (intervals w)"
      using stop_intervals_subset [OF len1] by (simp add: destroy_def stopAlarm_simps)
    moreover have "\<forall>e \<in> set (intervals w). fst (snd e) = a"
      using all by (simp add: owned_def filter_id_conv)
    ultimately have "intervals (destroy a w) = []"
      using own unfolding owned_nil_iff by (cases "intervals (destroy a w)") auto
    then show ?thesis using ticks_no_intervals [OF assms(3)] by simp
  qed
  then show ?thesis
    using own st ticks_elsewhere [OF assms(3) wf2 len2 own] by simp
qed

theorem destroy_cancels_callback_witness:
  "running (heap ex_late ! 0) \<and> owned 0 ex_late = intervals ex_late
   \<and> intervals ex_late = [(0, 0, 0, 5)]
   \<and> \<not> running (heap (destroy 0 ex_late) ! 0)
   \<and> owned 0 (destroy 0 ex_late) = []
   \<and> heap (run (destroy 0 ex_late) [Tick 0 5000, Tick 0 5250, Tick 1 9000]) ! 0
       = heap (destroy 0 ex_late) ! 0
   \<and> run (destroy 0 ex_late) [Tick 0 5000, Tick 0 5250, Tick 1 9000] = destroy 0 ex_late
   \<and> playCalls (run (destroy 0 ex_late) [Tick 0 5000, Tick 0 5250, Tick 1 9000]) = 0"
proof -
  have h: "wf_world ex_late" "0 < length (heap ex_late)"
    "list_all is_tick [Tick 0 5000, Tick 0 5250, Tick 1 9000]"
    and v: "running (heap ex_late ! 0)" "owned 0 ex_late = intervals ex_late"
      "intervals ex_late = [(0, 0, 0, 5)]" "playCalls (destroy 0 ex_late) = 0"
    by code_simp+
  show ?thesis
    using destroy_cancels_callback [OF h] v by simp
qed

section \<open>Seconds are never negative, for a clock that does not run backwards\<close>

text \<open>
  Claim C8, as far as it holds. The countdown branch of the callback has
  \<open>Math.max(0, ...)\<close>; the count-up branch stores \<open>startSeconds + elapsed\<close> as it
  is. \<open>Date.now()\<close> is the wall clock, which can be set back: a count-up card
  started at clock 1000 and ticked at clock 999 computes
  \<open>elapsed = Math.floor(-1 / 1000) = -1\<close> and shows \<open>-1\<close> seconds. So the invariant
  fails for arbitrary clock readings.
\<close>

theorem countup_negative_counterexample:
  "totalSeconds (heap (run init_world [NewTimer 0, ToggleClick 0 Up, StartClick 0 1000, Tick 0 999]) ! 0) = - 1
   \<and> \<not> 0 \<le> totalSeconds (heap (run init_world [NewTimer 0, ToggleClick 0 Up, StartClick 0 1000, Tick 0 999]) ! 0)"
  by code_simp

text \<open>
  Claim C8, amended. In every run of the page from its initial state (cards created,
  modes toggled, pickers stepped, cards started, stopped, reset, clicked and destroyed,
  and intervals fired, in any order) in which no callback of a count-up card reads a
  clock earlier than the reading its \<open>start\<close> took, \<open>totalSeconds\<close> of every card is
  at least 0 after every event of the run.
\<close>

theorem total_nonneg_when_clock_not_before_start:
  assumes "clock_ok init_world es" and "i < length (heap (run init_world (take n es)))"
  shows "0 \<le> totalSeconds (heap (run init_world (take n es)) ! i)"
proof -
  have "nonneg_world (run init_world (take n es))"
    using nonneg_init clock_ok_take [OF assms(1)] by (rule nonneg_run)
  then show ?thesis using assms(2) by (simp add: nonneg_world_iff fields_nonneg_def)
qed

theorem total_nonneg_when_clock_not_before_start_witness:
  "clock_ok init_world
     [NewTimer 0, ToggleClick 0 Up, StartClick 0 1000, Tick 0 1000, Tick 0 4100, Tick 0 3999]
   \<and> totalSeconds (heap (run init_world (take 6
        [NewTimer 0, ToggleClick 0 Up, StartClick 0 1000, Tick 0 1000, Tick 0 4100, Tick 0 3999])) ! 0) = 2
   \<and> 0 \<le> totalSeconds (heap (run init_world (take 6
        [NewTimer 0, ToggleClick 0 Up, StartClick 0 1000, Tick 0 1000, Tick 0 4100, Tick 0 3999])) ! 0)"
proof -
  let ?es = "[NewTimer 0, ToggleClick 0 Up, StartClick 0 1000, Tick 0 1000, Tick 0 4100, Tick 0 3999]"
  have h: "clock_ok init_world ?es" "0 < length (heap (run init_world (take 6 ?es)))"
    and v: "totalSeconds (heap (run init_world (take 6 ?es)) ! 0) = 2"
    by code_simp+
  show ?thesis
    using total_nonneg_when_clock_not_before_start [OF h] h(1) v by simp
qed

end
